theory Spec2Isabelle
  imports Main "HOL-Library.Word" "HOL-Library.Monad_Syntax"
begin

section \<open>Machine types and the platform\<close>

text \<open>
  The pool of \<^verbatim>\<open>prethd.c\<close> is modelled on an LP64 target: \<^verbatim>\<open>size_t\<close> is a 64-bit
  word whose arithmetic wraps around, \<^verbatim>\<open>int\<close> is a 32-bit word read in two's complement
  (\<open>sint\<close>). A pointer is the identifier of a heap block, \<open>0\<close> being \<^verbatim>\<open>NULL\<close>.
\<close>

type_synonym size_t = "64 word"
type_synonym cint = "32 word"
type_synonym addr = nat

definition NULL :: addr where
  "NULL = 0"

text \<open>
  The sizes of the pthread types are those of \<^verbatim>\<open>pthread.h\<close> (glibc, x86-64); the
  header is not part of the repository. \<open>sizeof_pool\<close> is the size of
  \<^verbatim>\<open>struct pre_threads_t\<close>: three pointers and three \<^verbatim>\<open>size_t\<close>.
\<close>

definition sizeof_mutex :: size_t where
  "sizeof_mutex = 40"

definition sizeof_cond :: size_t where
  "sizeof_cond = 48"

definition sizeof_thread :: size_t where
  "sizeof_thread = 8"

definition sizeof_pool :: size_t where
  "sizeof_pool = 48"

section \<open>The pool object and the program state\<close>

text \<open>\<^verbatim>\<open>struct pre_threads_t\<close>, field by field.\<close>

record pre_threads_t =
  muts :: addr
  conds :: addr
  threads :: addr
  len :: size_t
  mlen :: size_t
  clen :: size_t

text \<open>
  Every call that leaves the program (the allocator, the pthread library) is recorded in
  a trace, in the order of the calls, with the array it works on, the index of the
  element and, where the caller reads it, the \<^verbatim>\<open>int\<close> the call returned.
\<close>

datatype event =
    Malloc size_t addr
  | Free addr
  | MutexInit addr nat
  | MutexDestroy addr nat
  | CondInit addr nat
  | CondDestroy addr nat
  | Create addr nat cint
  | Join addr nat cint
  | Lock addr nat cint
  | Unlock addr nat cint
  | Wait addr nat addr nat cint
  | Signal addr nat cint
  | Broadcast addr nat cint

text \<open>
  The state: the heap (block \<open>a\<close> is entry \<open>a - 1\<close> of the list: its size in bytes while
  it is live, \<open>None\<close> once freed), the contents of the pool objects, the thread slots that
  hold the handle of a created thread, and the trace. A function that touches memory
  returns an \<open>option\<close>: \<open>None\<close> is undefined behaviour of the C program (an access
  through a null or dangling pointer or outside its block, a \<^verbatim>\<open>free\<close> of a pointer that
  is not a live block).
\<close>

record state =
  heap :: "nat option list"
  pools :: "addr \<rightharpoonup> pre_threads_t"
  started :: "(addr \<times> nat) set"
  trace :: "event list"

definition init_state :: state where
  "init_state = \<lparr>heap = [], pools = Map.empty, started = {}, trace = []\<rparr>"

definition emit :: "event \<Rightarrow> state \<Rightarrow> state" where
  "emit e s = s\<lparr>trace := trace s @ [e]\<rparr>"

definition block_size :: "state \<Rightarrow> addr \<Rightarrow> nat option" where
  "block_size s a =
     (if a = NULL \<or> length (heap s) < a then None else heap s ! (a - 1))"

text \<open>
  \<^verbatim>\<open>malloc(n)\<close>: the platform decides whether the request is granted (\<open>ok\<close>); a granted
  request is a fresh block of \<open>n\<close> bytes, a refused one is \<^verbatim>\<open>NULL\<close>.
\<close>

definition malloc :: "bool \<Rightarrow> size_t \<Rightarrow> state \<Rightarrow> addr \<times> state" where
  "malloc ok n s =
     (if ok then
        (let a = Suc (length (heap s))
         in (a, emit (Malloc n a) (s\<lparr>heap := heap s @ [Some (unat n)]\<rparr>)))
      else (NULL, emit (Malloc n NULL) s))"

text \<open>\<^verbatim>\<open>free(p)\<close>: nothing happens for \<^verbatim>\<open>NULL\<close>; otherwise \<open>p\<close> must be a live block.\<close>

definition free :: "addr \<Rightarrow> state \<Rightarrow> state option" where
  "free a s =
     (if a = NULL then Some (emit (Free a) s)
      else (case block_size s a of
              None \<Rightarrow> None
            | Some b \<Rightarrow> Some (emit (Free a) (s\<lparr>heap := (heap s)[a - 1 := None]\<rparr>))))"

text \<open>
  Element \<open>i\<close> of an array of elements of \<open>sz\<close> bytes at \<open>base\<close> lies inside a live block.
\<close>

definition elem_ok :: "state \<Rightarrow> addr \<Rightarrow> nat \<Rightarrow> size_t \<Rightarrow> bool" where
  "elem_ok s base i sz =
     (case block_size s base of
        None \<Rightarrow> False
      | Some b \<Rightarrow> (i + 1) * unat sz \<le> b)"

text \<open>A call of the pthread library on element \<open>i\<close> of an array: it touches the element.\<close>

definition prim :: "size_t \<Rightarrow> addr \<Rightarrow> nat \<Rightarrow> event \<Rightarrow> state \<Rightarrow> state option" where
  "prim sz base i e s = (if elem_ok s base i sz then Some (emit e s) else None)"

text \<open>Reading a field through \<^verbatim>\<open>th->\<close>: the pool object must be a live block.\<close>

definition load_pool :: "state \<Rightarrow> addr \<Rightarrow> pre_threads_t option" where
  "load_pool s th =
     (case block_size s th of
        None \<Rightarrow> None
      | Some b \<Rightarrow> pools s th)"

section \<open>The static helpers\<close>

text \<open>
  The loop \<^verbatim>\<open>for (size_t i = 0; i < n; i++) f(arr + i)\<close> of the four helpers, from index
  \<open>i\<close> on; \<open>ev\<close> is the call made on each element. The index stays below \<open>n\<close>, so
  \<^verbatim>\<open>i++\<close> never wraps around and the model counts in \<open>nat\<close> up to \<open>unat n\<close>.
\<close>

function each_elem ::
  "size_t \<Rightarrow> (addr \<Rightarrow> nat \<Rightarrow> event) \<Rightarrow> addr \<Rightarrow> nat \<Rightarrow> nat \<Rightarrow> state \<Rightarrow> state option" where
  "each_elem sz ev base i n s =
     (if i < n then
        (case prim sz base i (ev base i) s of
           None \<Rightarrow> None
         | Some s' \<Rightarrow> each_elem sz ev base (Suc i) n s')
      else Some s)"
  by pat_completeness auto
termination
  by (relation "measure (\<lambda>(sz, ev, base, i, n, s). n - i)") auto

declare each_elem.simps [simp del]

definition init_muts :: "bool \<Rightarrow> size_t \<Rightarrow> state \<Rightarrow> (addr \<times> state) option" where
  "init_muts ok n s =
     (if n = 0 then Some (NULL, s)
      else
        (let (mut, s1) = malloc ok (n * sizeof_mutex) s
         in if mut \<noteq> NULL then
              (case each_elem sizeof_mutex MutexInit mut 0 (unat n) s1 of
                 None \<Rightarrow> None
               | Some s2 \<Rightarrow> Some (mut, s2))
            else Some (mut, s1)))"

definition des_muts :: "addr \<Rightarrow> size_t \<Rightarrow> state \<Rightarrow> state option" where
  "des_muts ms n s =
     (if ms \<noteq> NULL \<and> 0 < n then
        (case each_elem sizeof_mutex MutexDestroy ms 0 (unat n) s of
           None \<Rightarrow> None
         | Some s1 \<Rightarrow> free ms s1)
      else Some s)"

definition init_conds :: "bool \<Rightarrow> size_t \<Rightarrow> state \<Rightarrow> (addr \<times> state) option" where
  "init_conds ok n s =
     (if n = 0 then Some (NULL, s)
      else
        (let (cond, s1) = malloc ok (n * sizeof_cond) s
         in if cond \<noteq> NULL then
              (case each_elem sizeof_cond CondInit cond 0 (unat n) s1 of
                 None \<Rightarrow> None
               | Some s2 \<Rightarrow> Some (cond, s2))
            else Some (cond, s1)))"

definition des_conds :: "addr \<Rightarrow> size_t \<Rightarrow> state \<Rightarrow> state option" where
  "des_conds cs n s =
     (if cs \<noteq> NULL \<and> 0 < n then
        (case each_elem sizeof_cond CondDestroy cs 0 (unat n) s of
           None \<Rightarrow> None
         | Some s1 \<Rightarrow> free cs s1)
      else Some s)"

section \<open>The operations of the pool\<close>

text \<open>
  The answers of the allocator to the (up to four) requests of \<^verbatim>\<open>prethd_new\<close>: the pool
  object, the mutex array, the condition variable array, the thread array.
\<close>

record allocs =
  pool_granted :: bool
  muts_granted :: bool
  conds_granted :: bool
  threads_granted :: bool

text \<open>
  \<^verbatim>\<open>prethd_new\<close>. The six fields are written into the fresh object in the order of the
  source; nothing reads the object before the last of them is written, so the model
  stores the object once.
\<close>

definition prethd_new ::
  "size_t \<Rightarrow> size_t \<Rightarrow> size_t \<Rightarrow> allocs \<Rightarrow> state \<Rightarrow> (addr \<times> state) option" where
  "prethd_new th mut cond al s =
     (if th = 0 then Some (NULL, s)
      else
        (let (ret, s1) = malloc (pool_granted al) sizeof_pool s
         in if ret \<noteq> NULL then
              do {
                (m, s2) \<leftarrow> init_muts (muts_granted al) mut s1;
                (c, s3) \<leftarrow> init_conds (conds_granted al) cond s2;
                let (t, s4) = malloc (threads_granted al) (th * sizeof_thread) s3;
                let s5 = s4\<lparr>pools := (pools s4)(ret \<mapsto>
                          \<lparr>muts = m, conds = c, threads = t,
                           len = th, mlen = mut, clen = cond\<rparr>)\<rparr>;
                if t = NULL then
                  do {
                    s6 \<leftarrow> des_muts m mut s5;
                    s7 \<leftarrow> des_conds c cond s6;
                    s8 \<leftarrow> free ret s7;
                    Some (NULL, s8)
                  }
                else Some (ret, s5)
              }
            else Some (ret, s1)))"

text \<open>
  \<^verbatim>\<open>pthread_create(&(th->threads[i]), NULL, func, arg)\<close> with the \<^verbatim>\<open>int\<close> it returns: a
  successful call stores the handle of the new thread in the slot.
\<close>

definition pthread_create :: "addr \<Rightarrow> nat \<Rightarrow> cint \<Rightarrow> state \<Rightarrow> state option" where
  "pthread_create ts i r s =
     (case prim sizeof_thread ts i (Create ts i r) s of
        None \<Rightarrow> None
      | Some s' \<Rightarrow> Some (if r = 0 then s'\<lparr>started := insert (ts, i) (started s')\<rparr> else s'))"

text \<open>
  The loop of \<^verbatim>\<open>prethd_all\<close> from index \<open>i\<close> on; \<open>rc i\<close> is what the \<open>i\<close>-th
  \<^verbatim>\<open>pthread_create\<close> returns. The source reads \<^verbatim>\<open>th->len\<close> and \<^verbatim>\<open>th->threads\<close> at
  every iteration; no call of the loop writes to the pool object, so the model reads them
  once, before the loop (and so in \<^verbatim>\<open>prethd_join\<close>).
\<close>

function all_loop ::
  "addr \<Rightarrow> (nat \<Rightarrow> cint) \<Rightarrow> nat \<Rightarrow> nat \<Rightarrow> size_t \<Rightarrow> state \<Rightarrow> (size_t \<times> state) option" where
  "all_loop ts rc i n ret s =
     (if i < n then
        (case pthread_create ts i (rc i) s of
           None \<Rightarrow> None
         | Some s' \<Rightarrow>
             if rc i \<noteq> 0 then Some (ret, s')
             else all_loop ts rc (Suc i) n (ret + 1) s')
      else Some (ret, s))"
  by pat_completeness auto
termination
  by (relation "measure (\<lambda>(ts, rc, i, n, ret, s). n - i)") auto

declare all_loop.simps [simp del]

definition prethd_all :: "addr \<Rightarrow> (nat \<Rightarrow> cint) \<Rightarrow> state \<Rightarrow> (size_t \<times> state) option" where
  "prethd_all th rc s =
     (if th = NULL then Some (0, s)
      else
        do {
          p \<leftarrow> load_pool s th;
          all_loop (threads p) rc 0 (unat (len p)) 0 s
        })"

definition prethd_size :: "addr \<Rightarrow> state \<Rightarrow> size_t option" where
  "prethd_size th s = (if th = NULL then Some 0 else map_option len (load_pool s th))"

definition prethd_mutex_size :: "addr \<Rightarrow> state \<Rightarrow> size_t option" where
  "prethd_mutex_size th s = (if th = NULL then Some 0 else map_option mlen (load_pool s th))"

definition prethd_cond_size :: "addr \<Rightarrow> state \<Rightarrow> size_t option" where
  "prethd_cond_size th s = (if th = NULL then Some 0 else map_option clen (load_pool s th))"

text \<open>
  The loop of \<^verbatim>\<open>prethd_join\<close> from index \<open>i\<close> on: \<^verbatim>\<open>chk += pthread_join(...)\<close>, an
  \<^verbatim>\<open>int\<close> addition, which wraps around here as it does on the machine (C leaves the
  overflow undefined). \<open>rc i\<close> is what the \<open>i\<close>-th \<^verbatim>\<open>pthread_join\<close> returns.
\<close>

function join_loop ::
  "addr \<Rightarrow> (nat \<Rightarrow> cint) \<Rightarrow> nat \<Rightarrow> nat \<Rightarrow> cint \<Rightarrow> state \<Rightarrow> (cint \<times> state) option" where
  "join_loop ts rc i n chk s =
     (if i < n then
        (case prim sizeof_thread ts i (Join ts i (rc i)) s of
           None \<Rightarrow> None
         | Some s' \<Rightarrow> join_loop ts rc (Suc i) n (chk + rc i) s')
      else Some (chk, s))"
  by pat_completeness auto
termination
  by (relation "measure (\<lambda>(ts, rc, i, n, chk, s). n - i)") auto

declare join_loop.simps [simp del]

definition prethd_join :: "addr \<Rightarrow> (nat \<Rightarrow> cint) \<Rightarrow> state \<Rightarrow> (bool \<times> state) option" where
  "prethd_join th rc s =
     (if th = NULL then Some (False, s)
      else
        do {
          p \<leftarrow> load_pool s th;
          (chk, s') \<leftarrow> join_loop (threads p) rc 0 (unat (len p)) 0 s;
          Some (chk = 0, s')
        })"

text \<open>
  The five indexed operations; \<open>r\<close> is what the pthread call returns if the bounds check
  lets it happen.
\<close>

definition prethd_lock :: "addr \<Rightarrow> size_t \<Rightarrow> cint \<Rightarrow> state \<Rightarrow> (bool \<times> state) option" where
  "prethd_lock th i r s =
     (if th = NULL then Some (False, s)
      else
        do {
          p \<leftarrow> load_pool s th;
          if mlen p \<le> i then Some (False, s)
          else
            do {
              s' \<leftarrow> prim sizeof_mutex (muts p) (unat i) (Lock (muts p) (unat i) r) s;
              Some (r = 0, s')
            }
        })"

definition prethd_unlock :: "addr \<Rightarrow> size_t \<Rightarrow> cint \<Rightarrow> state \<Rightarrow> (bool \<times> state) option" where
  "prethd_unlock th i r s =
     (if th = NULL then Some (False, s)
      else
        do {
          p \<leftarrow> load_pool s th;
          if mlen p \<le> i then Some (False, s)
          else
            do {
              s' \<leftarrow> prim sizeof_mutex (muts p) (unat i) (Unlock (muts p) (unat i) r) s;
              Some (r = 0, s')
            }
        })"

definition prethd_wait ::
  "addr \<Rightarrow> size_t \<Rightarrow> size_t \<Rightarrow> cint \<Rightarrow> state \<Rightarrow> (bool \<times> state) option" where
  "prethd_wait th c m r s =
     (if th = NULL then Some (False, s)
      else
        do {
          p \<leftarrow> load_pool s th;
          if clen p \<le> c \<or> mlen p \<le> m then Some (False, s)
          else if elem_ok s (muts p) (unat m) sizeof_mutex then
            do {
              s' \<leftarrow> prim sizeof_cond (conds p) (unat c)
                     (Wait (conds p) (unat c) (muts p) (unat m) r) s;
              Some (r = 0, s')
            }
          else None
        })"

definition prethd_signal :: "addr \<Rightarrow> size_t \<Rightarrow> cint \<Rightarrow> state \<Rightarrow> (bool \<times> state) option" where
  "prethd_signal th i r s =
     (if th = NULL then Some (False, s)
      else
        do {
          p \<leftarrow> load_pool s th;
          if clen p \<le> i then Some (False, s)
          else
            do {
              s' \<leftarrow> prim sizeof_cond (conds p) (unat i) (Signal (conds p) (unat i) r) s;
              Some (r = 0, s')
            }
        })"

definition prethd_broad :: "addr \<Rightarrow> size_t \<Rightarrow> cint \<Rightarrow> state \<Rightarrow> (bool \<times> state) option" where
  "prethd_broad th i r s =
     (if th = NULL then Some (False, s)
      else
        do {
          p \<leftarrow> load_pool s th;
          if clen p \<le> i then Some (False, s)
          else
            do {
              s' \<leftarrow> prim sizeof_cond (conds p) (unat i) (Broadcast (conds p) (unat i) r) s;
              Some (r = 0, s')
            }
        })"

text \<open>
  The four release steps that \<^verbatim>\<open>prethd_free\<close> and \<^verbatim>\<open>prethd_join_free\<close> both spell
  out; each \<^verbatim>\<open>th->\<close> reads the pool object again.
\<close>

definition prethd_free :: "addr \<Rightarrow> state \<Rightarrow> state option" where
  "prethd_free th s =
     (if th \<noteq> NULL then
        do {
          p1 \<leftarrow> load_pool s th;
          s1 \<leftarrow> des_muts (muts p1) (mlen p1) s;
          p2 \<leftarrow> load_pool s1 th;
          s2 \<leftarrow> des_conds (conds p2) (clen p2) s1;
          p3 \<leftarrow> load_pool s2 th;
          s3 \<leftarrow> free (threads p3) s2;
          free th s3
        }
      else Some s)"

definition prethd_join_free :: "addr \<Rightarrow> (nat \<Rightarrow> cint) \<Rightarrow> state \<Rightarrow> state option" where
  "prethd_join_free th rc s =
     do {
       (joined, s0) \<leftarrow> prethd_join th rc s;
       if joined then
         do {
           p1 \<leftarrow> load_pool s0 th;
           s1 \<leftarrow> des_muts (muts p1) (mlen p1) s0;
           p2 \<leftarrow> load_pool s1 th;
           s2 \<leftarrow> des_conds (conds p2) (clen p2) s1;
           p3 \<leftarrow> load_pool s2 th;
           s3 \<leftarrow> free (threads p3) s2;
           free th s3
         }
       else Some s0
     }"

section \<open>Vocabulary of the properties\<close>

text \<open>A state that differs from \<open>s\<close> only by further calls at the end of the trace.\<close>

definition emits :: "event list \<Rightarrow> state \<Rightarrow> state" where
  "emits es s = s\<lparr>trace := trace s @ es\<rparr>"

text \<open>The array at \<open>base\<close> holds \<open>n\<close> elements of \<open>sz\<close> bytes.\<close>

definition arr_ok :: "state \<Rightarrow> addr \<Rightarrow> size_t \<Rightarrow> size_t \<Rightarrow> bool" where
  "arr_ok s base n sz = (n = 0 \<or> elem_ok s base (unat n - 1) sz)"

text \<open>
  The data model of a pool: a live pool object whose three arrays hold as many elements
  as the three counts say.
\<close>

definition pool_ok :: "state \<Rightarrow> addr \<Rightarrow> bool" where
  "pool_ok s th =
     (th \<noteq> NULL \<and>
      (case load_pool s th of
         None \<Rightarrow> False
       | Some p \<Rightarrow>
           arr_ok s (threads p) (len p) sizeof_thread \<and>
           arr_ok s (muts p) (mlen p) sizeof_mutex \<and>
           arr_ok s (conds p) (clen p) sizeof_cond))"

text \<open>
  The \<^verbatim>\<open>int\<close> results of \<open>n\<close> pthread calls are error numbers (none is negative) and their
  sum is an \<^verbatim>\<open>int\<close>: adding them up does not overflow.
\<close>

definition codes_fit :: "(nat \<Rightarrow> cint) \<Rightarrow> nat \<Rightarrow> bool" where
  "codes_fit rc n =
     (list_all (\<lambda>i. 0 \<le> sint (rc i)) [0..<n] \<and>
      sum_list (map (\<lambda>i. sint (rc i)) [0..<n]) \<le> 2147483647)"

text \<open>
  The number of calls, from the \<open>i\<close>-th on and before the \<open>n\<close>-th, that return 0 before the
  first one that does not.
\<close>

definition started_run :: "(nat \<Rightarrow> cint) \<Rightarrow> nat \<Rightarrow> nat \<Rightarrow> nat" where
  "started_run rc i n = length (takeWhile (\<lambda>j. rc j = 0) [i..<n])"

text \<open>
  Between \<open>s\<close> and \<open>s'\<close>, \<^verbatim>\<open>pthread_join\<close> was called only on slots that hold the handle of
  a created thread in \<open>s\<close>.
\<close>

definition joins_started_only :: "state \<Rightarrow> state \<Rightarrow> bool" where
  "joins_started_only s s' =
     list_all (\<lambda>e. case e of Join ts i r \<Rightarrow> (ts, i) \<in> started s | _ \<Rightarrow> True)
       (drop (length (trace s)) (trace s'))"

text \<open>
  The operations that work on a pool between its construction and its release, with the
  answers of the pthread library, and a run of a sequence of them on one pool.
\<close>

datatype op =
    StartAll "nat \<Rightarrow> cint"
  | JoinAll "nat \<Rightarrow> cint"
  | LockOp size_t cint
  | UnlockOp size_t cint
  | WaitOp size_t size_t cint
  | SignalOp size_t cint
  | BroadOp size_t cint

fun apply_op :: "addr \<Rightarrow> op \<Rightarrow> state \<Rightarrow> state option" where
  "apply_op th (StartAll rc) s = map_option snd (prethd_all th rc s)"
| "apply_op th (JoinAll rc) s = map_option snd (prethd_join th rc s)"
| "apply_op th (LockOp i r) s = map_option snd (prethd_lock th i r s)"
| "apply_op th (UnlockOp i r) s = map_option snd (prethd_unlock th i r s)"
| "apply_op th (WaitOp c m r) s = map_option snd (prethd_wait th c m r s)"
| "apply_op th (SignalOp i r) s = map_option snd (prethd_signal th i r s)"
| "apply_op th (BroadOp i r) s = map_option snd (prethd_broad th i r s)"

fun run_ops :: "addr \<Rightarrow> op list \<Rightarrow> state \<Rightarrow> state option" where
  "run_ops th [] s = Some s"
| "run_ops th (x # xs) s =
     (case apply_op th x s of None \<Rightarrow> None | Some s' \<Rightarrow> run_ops th xs s')"

text \<open>
  A request for \<open>n\<close> elements of \<open>sz\<close> bytes asks for the bytes of the whole array: the
  \<^verbatim>\<open>size_t\<close> product \<open>n * sz\<close> does not wrap around.
\<close>

definition fits :: "size_t \<Rightarrow> size_t \<Rightarrow> bool" where
  "fits n sz = (unat n * unat sz < 2 ^ 64)"

text \<open>
  The underlying allocations of \<^verbatim>\<open>prethd_new\<close> succeed: the allocator grants each of the
  four requests, and each request is for the whole array.
\<close>

definition allocs_succeed :: "size_t \<Rightarrow> size_t \<Rightarrow> size_t \<Rightarrow> allocs \<Rightarrow> bool" where
  "allocs_succeed th mut cond al =
     (pool_granted al \<and> muts_granted al \<and> conds_granted al \<and> threads_granted al \<and>
      fits th sizeof_thread \<and> fits mut sizeof_mutex \<and> fits cond sizeof_cond)"

text \<open>
  What the release of a pool relies on: the pool object and the thread array are live
  blocks; an array of mutexes or condition variables that \<^verbatim>\<open>des_muts\<close> or
  \<^verbatim>\<open>des_conds\<close> will work on (not \<^verbatim>\<open>NULL\<close>, count not 0) holds its elements; and the blocks
  to release are different blocks.
\<close>

definition releasable :: "state \<Rightarrow> addr \<Rightarrow> pre_threads_t \<Rightarrow> bool" where
  "releasable s th p =
     (th \<noteq> NULL \<and> load_pool s th = Some p \<and>
      block_size s (threads p) \<noteq> None \<and> threads p \<noteq> th \<and>
      (muts p = NULL \<or> mlen p = 0 \<or>
         elem_ok s (muts p) (unat (mlen p) - 1) sizeof_mutex \<and>
         muts p \<noteq> th \<and> muts p \<noteq> threads p) \<and>
      (conds p = NULL \<or> clen p = 0 \<or>
         elem_ok s (conds p) (unat (clen p) - 1) sizeof_cond \<and>
         conds p \<noteq> th \<and> conds p \<noteq> threads p \<and>
         (muts p = NULL \<or> mlen p = 0 \<or> conds p \<noteq> muts p)))"

section \<open>Concrete pools\<close>

text \<open>
  The states the closed examples run on: \<open>demo_pool\<close> is the state after
  \<^verbatim>\<open>prethd_new(2, 1, 1)\<close> on the empty heap with every request granted (the pool object is
  block 1), \<open>demo_partial\<close> the state after a \<^verbatim>\<open>prethd_all\<close> on it whose second
  \<^verbatim>\<open>pthread_create\<close> returned \<^verbatim>\<open>EAGAIN\<close> (11).
\<close>

definition all_ok :: allocs where
  "all_ok = \<lparr>pool_granted = True, muts_granted = True, conds_granted = True,
     threads_granted = True\<rparr>"

definition demo_pool :: state where
  "demo_pool =
     \<lparr>heap = [Some 48, Some 40, Some 48, Some 16],
      pools = [1 \<mapsto> \<lparr>muts = 2, conds = 3, threads = 4, len = 2, mlen = 1, clen = 1\<rparr>],
      started = {},
      trace = [Malloc 48 1, Malloc 40 2, MutexInit 2 0, Malloc 48 3, CondInit 3 0,
               Malloc 16 4]\<rparr>"

definition demo_obj :: pre_threads_t where
  "demo_obj = \<lparr>muts = 2, conds = 3, threads = 4, len = 2, mlen = 1, clen = 1\<rparr>"

definition demo_partial :: state where
  "demo_partial = (emits [Create 4 0 0, Create 4 1 11] demo_pool)\<lparr>started := {(4, 0)}\<rparr>"

text \<open>
  \<open>bare_pool\<close> is the state after \<^verbatim>\<open>prethd_new(1, 0, 0)\<close> with every request granted;
  \<open>partial_pool\<close> the state after \<^verbatim>\<open>prethd_new(1, 1, 0)\<close> when the allocator refuses the
  mutex array only (\<open>no_muts\<close>).
\<close>

definition bare_pool :: state where
  "bare_pool =
     \<lparr>heap = [Some 48, Some 8],
      pools = [1 \<mapsto> \<lparr>muts = 0, conds = 0, threads = 2, len = 1, mlen = 0, clen = 0\<rparr>],
      started = {},
      trace = [Malloc 48 1, Malloc 8 2]\<rparr>"

definition no_muts :: allocs where
  "no_muts = \<lparr>pool_granted = True, muts_granted = False, conds_granted = True,
     threads_granted = True\<rparr>"

definition partial_pool :: state where
  "partial_pool =
     \<lparr>heap = [Some 48, Some 8],
      pools = [1 \<mapsto> \<lparr>muts = 0, conds = 0, threads = 2, len = 1, mlen = 1, clen = 0\<rparr>],
      started = {},
      trace = [Malloc 48 1, Malloc 40 0, Malloc 8 2]\<rparr>"

definition demo_ops :: "op list" where
  "demo_ops =
     [StartAll (\<lambda>i. 0), LockOp 0 0, WaitOp 0 0 0, SignalOp 0 0, BroadOp 0 0, UnlockOp 0 0,
      LockOp 5 0, JoinAll (\<lambda>i. 0)]"

text \<open>
  \<open>wrapped_pool\<close> is the state after \<^verbatim>\<open>prethd_new(2^61, 0, 0)\<close> with every request granted:
  the \<^verbatim>\<open>size_t\<close> product \<open>2^61 * 8\<close> is 0, so the thread array is a block of 0 bytes.
  \<open>huge_pool\<close> is the state after \<^verbatim>\<open>prethd_new(2^32, 0, 0)\<close> with every request granted (a
  thread array of \<open>2^35\<close> bytes), \<open>huge_joined\<close> that state after a \<^verbatim>\<open>pthread_join\<close> on each
  of its slots that returned \<^verbatim>\<open>ESRCH\<close> (3), as every call does under \<open>all_esrch\<close>. Under
  \<open>plus_minus\<close> the first call returns 3 and the later ones the \<^verbatim>\<open>int\<close> \<open>-3\<close>.
\<close>

definition wrapped_pool :: state where
  "wrapped_pool =
     \<lparr>heap = [Some 48, Some 0],
      pools = [1 \<mapsto> \<lparr>muts = 0, conds = 0, threads = 2, len = 2305843009213693952,
                      mlen = 0, clen = 0\<rparr>],
      started = {},
      trace = [Malloc 48 1, Malloc 0 2]\<rparr>"

definition huge_pool :: state where
  "huge_pool =
     \<lparr>heap = [Some 48, Some 34359738368],
      pools = [1 \<mapsto> \<lparr>muts = 0, conds = 0, threads = 2, len = 4294967296,
                      mlen = 0, clen = 0\<rparr>],
      started = {},
      trace = [Malloc 48 1, Malloc 34359738368 2]\<rparr>"

definition huge_obj :: pre_threads_t where
  "huge_obj = \<lparr>muts = 0, conds = 0, threads = 2, len = 4294967296, mlen = 0, clen = 0\<rparr>"

definition all_esrch :: "nat \<Rightarrow> cint" where
  "all_esrch i = 3"

definition huge_joined :: state where
  "huge_joined = emits (map (\<lambda>i. Join 2 i 3) [0..<4294967296]) huge_pool"

definition plus_minus :: "nat \<Rightarrow> cint" where
  "plus_minus i = (if i = 0 then 3 else - 3)"

text \<open>
  Return values for the examples: the second \<^verbatim>\<open>pthread_create\<close> fails with
  \<^verbatim>\<open>EAGAIN\<close> (11); the second, or the first, \<^verbatim>\<open>pthread_join\<close> fails with
  \<^verbatim>\<open>ESRCH\<close> (3).
\<close>

definition second_eagain :: "nat \<Rightarrow> cint" where
  "second_eagain i = (if i = 0 then 0 else 11)"

definition second_esrch :: "nat \<Rightarrow> cint" where
  "second_esrch i = (if i = 0 then 0 else 3)"

definition first_esrch :: "nat \<Rightarrow> cint" where
  "first_esrch i = (if i = 0 then 3 else 0)"

section \<open>Auxiliary facts\<close>

subsection \<open>The trace and the frame of a call\<close>

lemma emit_emits: "emit e s = emits [e] s"
  by (simp add: emit_def emits_def)

lemma emits_emits [simp]: "emits es (emits ds s) = emits (ds @ es) s"
  by (simp add: emits_def)

lemma emits_Nil [simp]: "emits [] s = s"
  by (simp add: emits_def)

lemma emits_sel [simp]:
  "heap (emits es s) = heap s" "pools (emits es s) = pools s"
  "started (emits es s) = started s" "trace (emits es s) = trace s @ es"
  by (simp_all add: emits_def)

lemma block_size_emits [simp]: "block_size (emits es s) a = block_size s a"
  by (simp add: block_size_def)

lemma elem_ok_emits [simp]: "elem_ok (emits es s) base i sz = elem_ok s base i sz"
  by (simp add: elem_ok_def)

lemma load_pool_emits [simp]: "load_pool (emits es s) th = load_pool s th"
  by (simp add: load_pool_def split: option.splits)

lemma block_size_started [simp]: "block_size (s\<lparr>started := X\<rparr>) a = block_size s a"
  by (simp add: block_size_def)

lemma elem_ok_started [simp]: "elem_ok (s\<lparr>started := X\<rparr>) base i sz = elem_ok s base i sz"
  by (simp add: elem_ok_def)

lemma load_pool_started [simp]: "load_pool (s\<lparr>started := X\<rparr>) th = load_pool s th"
  by (simp add: load_pool_def split: option.splits)

lemma emits_started: "emits es (s\<lparr>started := X\<rparr>) = (emits es s)\<lparr>started := X\<rparr>"
  by (simp add: emits_def)

lemma block_size_pools [simp]: "block_size (s\<lparr>pools := ps\<rparr>) a = block_size s a"
  by (simp add: block_size_def)

lemma elem_ok_pools [simp]: "elem_ok (s\<lparr>pools := ps\<rparr>) base i sz = elem_ok s base i sz"
  by (simp add: elem_ok_def)

lemma load_pool_frame:
  "pools s' = pools s \<Longrightarrow> block_size s' th = block_size s th \<Longrightarrow> load_pool s' th = load_pool s th"
  by (auto simp: load_pool_def split: option.splits)

lemma elem_ok_frame:
  "block_size s' base = block_size s base \<Longrightarrow> elem_ok s' base i sz = elem_ok s base i sz"
  by (simp add: elem_ok_def)

lemma elem_ok_mono:
  assumes "elem_ok s base j sz" and "i \<le> j"
  shows "elem_ok s base i sz"
proof -
  from assms(1) obtain b where b: "block_size s base = Some b" and le2: "(j + 1) * unat sz \<le> b"
    by (auto simp: elem_ok_def split: option.splits)
  from assms(2) have le1: "(i + 1) * unat sz \<le> (j + 1) * unat sz"
    by (intro mult_le_mono1) simp
  have "(i + 1) * unat sz \<le> b"
    using le1 le2 by (rule order_trans)
  with b show ?thesis
    by (simp add: elem_ok_def)
qed

lemma elem_ok_live: "elem_ok s base i sz \<Longrightarrow> block_size s base \<noteq> None"
  by (auto simp: elem_ok_def split: option.splits)

lemma arr_ok_elem: "arr_ok s base n sz \<Longrightarrow> i < unat n \<Longrightarrow> elem_ok s base i sz"
  unfolding arr_ok_def using elem_ok_mono [of s base "unat n - 1" sz i]
  by (cases "n = 0") auto

lemma unat_pos: "n \<noteq> 0 \<Longrightarrow> 0 < unat (n :: size_t)"
  by (simp add: unat_gt_0)

subsection \<open>The loops\<close>

lemma prim_eq: "prim sz base i e s = (if elem_ok s base i sz then Some (emits [e] s) else None)"
  by (simp add: prim_def emit_emits)

lemma each_elem_eq:
  "each_elem sz ev base i n s =
     (if n \<le> i \<or> elem_ok s base (n - 1) sz
      then Some (emits (map (ev base) [i..<n]) s) else None)"
proof (induction sz ev base i n s rule: each_elem.induct)
  case (1 sz ev base i n s)
  show ?case
  proof (cases "i < n")
    case False
    then show ?thesis by (subst each_elem.simps) simp
  next
    case True
    show ?thesis
    proof (cases "elem_ok s base i sz")
      case False
      moreover from True have "i \<le> n - 1" by simp
      ultimately have "\<not> elem_ok s base (n - 1) sz"
        using elem_ok_mono [of s base "n - 1" sz i] by blast
      with True False show ?thesis
        by (subst each_elem.simps) (simp add: prim_eq)
    next
      case ok: True
      have "each_elem sz ev base i n s = each_elem sz ev base (Suc i) n (emits [ev base i] s)"
        using True ok by (subst each_elem.simps) (simp add: prim_eq)
      also have "\<dots> = (if n \<le> Suc i \<or> elem_ok s base (n - 1) sz
          then Some (emits (map (ev base) [Suc i..<n]) (emits [ev base i] s)) else None)"
        using "1.IH" [of "emits [ev base i] s"] True ok by (simp add: prim_eq)
      also have "\<dots> = (if n \<le> i \<or> elem_ok s base (n - 1) sz
          then Some (emits (map (ev base) [i..<n]) s) else None)"
      proof -
        have "n \<le> Suc i \<Longrightarrow> elem_ok s base (n - 1) sz"
          using True ok by (cases "n = Suc i") auto
        then show ?thesis using True by (auto simp: upt_conv_Cons)
      qed
      finally show ?thesis .
    qed
  qed
qed

lemma join_loop_eq:
  "join_loop ts rc i n chk s =
     (if n \<le> i \<or> elem_ok s ts (n - 1) sizeof_thread
      then Some (chk + (\<Sum>j = i..<n. rc j), emits (map (\<lambda>j. Join ts j (rc j)) [i..<n]) s)
      else None)"
proof (induction ts rc i n chk s rule: join_loop.induct)
  case (1 ts rc i n chk s)
  show ?case
  proof (cases "i < n")
    case False
    then show ?thesis by (subst join_loop.simps) simp
  next
    case True
    show ?thesis
    proof (cases "elem_ok s ts i sizeof_thread")
      case False
      moreover from True have "i \<le> n - 1" by simp
      ultimately have "\<not> elem_ok s ts (n - 1) sizeof_thread"
        using elem_ok_mono [of s ts "n - 1" sizeof_thread i] by blast
      with True False show ?thesis
        by (subst join_loop.simps) (simp add: prim_eq)
    next
      case ok: True
      have last: "n \<le> Suc i \<Longrightarrow> elem_ok s ts (n - 1) sizeof_thread"
        using True ok by (cases "n = Suc i") auto
      have "join_loop ts rc i n chk s =
          join_loop ts rc (Suc i) n (chk + rc i) (emits [Join ts i (rc i)] s)"
        using True ok by (subst join_loop.simps) (simp add: prim_eq)
      then show ?thesis
        using "1.IH" [of "emits [Join ts i (rc i)] s"] True ok last
        by (auto simp: prim_eq upt_conv_Cons sum.atLeast_Suc_lessThan add.assoc)
    qed
  qed
qed

lemma pthread_create_eq:
  "pthread_create ts i r s =
     (if elem_ok s ts i sizeof_thread
      then Some (if r = 0 then (emits [Create ts i r] s)\<lparr>started := insert (ts, i) (started s)\<rparr>
                 else emits [Create ts i r] s)
      else None)"
  by (simp add: pthread_create_def prim_eq)

lemma started_run_ge [simp]: "n \<le> i \<Longrightarrow> started_run rc i n = 0"
  by (simp add: started_run_def)

lemma started_run_fail [simp]: "i < n \<Longrightarrow> rc i \<noteq> 0 \<Longrightarrow> started_run rc i n = 0"
  by (simp add: started_run_def upt_conv_Cons)

lemma started_run_step [simp]:
  "i < n \<Longrightarrow> rc i = 0 \<Longrightarrow> started_run rc i n = Suc (started_run rc (Suc i) n)"
  by (simp add: started_run_def upt_conv_Cons)

lemma started_run_le: "i \<le> n \<Longrightarrow> i + started_run rc i n \<le> n"
  unfolding started_run_def
  using length_takeWhile_le [of "\<lambda>j. rc j = 0" "[i..<n]"] by simp

lemma started_run_all:
  assumes "list_all (\<lambda>i. rc i = 0) [0..<n]"
  shows "started_run rc 0 n = n"
proof -
  from assms have "takeWhile (\<lambda>j. rc j = 0) [0..<n] = [0..<n]"
    by (simp add: takeWhile_eq_all_conv list_all_iff)
  then have "length (takeWhile (\<lambda>j. rc j = 0) [0..<n]) = length [0..<n]"
    by (rule arg_cong)
  then show ?thesis by (simp add: started_run_def)
qed

lemma started_run_zero: "j < started_run rc 0 n \<Longrightarrow> rc j = 0"
proof -
  assume a: "j < started_run rc 0 n"
  let ?xs = "takeWhile (\<lambda>j. rc j = 0) [0..<n]"
  from a have j: "j < length ?xs" by (simp add: started_run_def)
  then have "?xs ! j \<in> set ?xs" by (rule nth_mem)
  then have "rc (?xs ! j) = 0" by (auto dest: set_takeWhileD)
  moreover have "?xs ! j = [0..<n] ! j" using j by (rule takeWhile_nth)
  moreover have "j < n" using j length_takeWhile_le [of "\<lambda>j. rc j = 0" "[0..<n]"] by simp
  ultimately show "rc j = 0" by simp
qed

lemma started_run_stop: "started_run rc 0 n < n \<Longrightarrow> rc (started_run rc 0 n) \<noteq> 0"
proof -
  assume a: "started_run rc 0 n < n"
  let ?k = "length (takeWhile (\<lambda>j. rc j = 0) [0..<n])"
  from a have "?k < length [0..<n]" by (simp add: started_run_def)
  then have "\<not> (\<lambda>j. rc j = 0) ([0..<n] ! ?k)" by (rule nth_length_takeWhile)
  with a show ?thesis by (simp add: started_run_def)
qed

lemma all_loop_eq:
  "all_loop ts rc i n ret s =
     (if min (Suc (i + started_run rc i n)) n \<le> i \<or>
         elem_ok s ts (min (Suc (i + started_run rc i n)) n - 1) sizeof_thread
      then Some (ret + of_nat (started_run rc i n),
                 (emits (map (\<lambda>j. Create ts j (rc j)) [i..<min (Suc (i + started_run rc i n)) n]) s)
                 \<lparr>started := started s \<union> (\<lambda>j. (ts, j)) ` {i..<i + started_run rc i n}\<rparr>)
      else None)"
proof (induction ts rc i n ret s rule: all_loop.induct)
  case (1 ts rc i n ret s)
  show ?case
  proof (cases "i < n")
    case False
    then show ?thesis by (subst all_loop.simps) simp
  next
    case lt: True
    let ?top = "min (Suc (i + started_run rc i n)) n"
    have top: "i < ?top" using lt by simp
    show ?thesis
    proof (cases "elem_ok s ts i sizeof_thread")
      case False
      moreover from top have "i \<le> ?top - 1" by simp
      ultimately have "\<not> elem_ok s ts (?top - 1) sizeof_thread"
        using elem_ok_mono [of s ts "?top - 1" sizeof_thread i] by blast
      with top False lt show ?thesis
        by (subst all_loop.simps) (simp add: pthread_create_eq)
    next
      case ok: True
      show ?thesis
      proof (cases "rc i = 0")
        case False
        with lt ok show ?thesis
          by (subst all_loop.simps) (simp add: pthread_create_eq min_def)
      next
        case zero: True
        let ?s' = "(emits [Create ts i (rc i)] s)\<lparr>started := insert (ts, i) (started s)\<rparr>"
        have step: "all_loop ts rc i n ret s = all_loop ts rc (Suc i) n (ret + 1) ?s'"
          using lt ok zero by (subst all_loop.simps) (simp add: pthread_create_eq)
        have k: "started_run rc i n = Suc (started_run rc (Suc i) n)"
          using lt zero by simp
        have set_eq: "insert (ts, i) (started s) \<union> (\<lambda>j. (ts, j)) ` {Suc i..<Suc i + started_run rc (Suc i) n}
            = started s \<union> (\<lambda>j. (ts, j)) ` {i..<i + started_run rc i n}"
          unfolding k by (auto simp: image_iff)
        have last: "?top \<le> Suc i \<Longrightarrow> elem_ok s ts (?top - 1) sizeof_thread"
          using top ok by (cases "?top = Suc i") auto
        have IH: "all_loop ts rc (Suc i) n (ret + 1) ?s' =
          (if min (Suc (Suc i + started_run rc (Suc i) n)) n \<le> Suc i \<or>
              elem_ok ?s' ts (min (Suc (Suc i + started_run rc (Suc i) n)) n - 1) sizeof_thread
           then Some (ret + 1 + of_nat (started_run rc (Suc i) n),
                 (emits (map (\<lambda>j. Create ts j (rc j)) [Suc i..<min (Suc (Suc i + started_run rc (Suc i) n)) n]) ?s')
                 \<lparr>started := started ?s' \<union> (\<lambda>j. (ts, j)) ` {Suc i..<Suc i + started_run rc (Suc i) n}\<rparr>)
           else None)"
          using "1.IH" [of ?s'] lt ok zero by (simp add: pthread_create_eq)
        have top_eq: "min (Suc (Suc i + started_run rc (Suc i) n)) n = ?top"
          unfolding k by simp
        show ?thesis
          unfolding step IH top_eq
          using last top set_eq
          by (auto simp: k emits_started upt_conv_Cons add.assoc)
      qed
    qed
  qed
qed

subsection \<open>Starting and joining\<close>

lemma prethd_all_eq:
  assumes "th \<noteq> NULL" and "load_pool s th = Some p"
    and "arr_ok s (threads p) (len p) sizeof_thread"
  shows "prethd_all th rc s =
     Some (of_nat (started_run rc 0 (unat (len p))),
           (emits (map (\<lambda>j. Create (threads p) j (rc j))
                     [0..<min (Suc (started_run rc 0 (unat (len p)))) (unat (len p))]) s)
           \<lparr>started := started s \<union> (\<lambda>j. (threads p, j)) ` {0..<started_run rc 0 (unat (len p))}\<rparr>)"
proof -
  let ?n = "unat (len p)"
  let ?top = "min (Suc (started_run rc 0 ?n)) ?n"
  have "?top \<le> 0 \<or> elem_ok s (threads p) (?top - 1) sizeof_thread"
  proof (cases "len p = 0")
    case True
    then show ?thesis by simp
  next
    case False
    with assms(3) have "elem_ok s (threads p) (?n - 1) sizeof_thread"
      by (simp add: arr_ok_def)
    moreover have "?top - 1 \<le> ?n - 1" by simp
    ultimately show ?thesis
      using elem_ok_mono by blast
  qed
  then show ?thesis
    using assms(1,2) by (simp add: prethd_all_def all_loop_eq)
qed

lemma prethd_join_eq:
  assumes "th \<noteq> NULL" and "load_pool s th = Some p"
    and "arr_ok s (threads p) (len p) sizeof_thread"
  shows "prethd_join th rc s =
     Some ((\<Sum>j = 0..<unat (len p). rc j) = 0,
           emits (map (\<lambda>j. Join (threads p) j (rc j)) [0..<unat (len p)]) s)"
proof -
  have "unat (len p) \<le> 0 \<or> elem_ok s (threads p) (unat (len p) - 1) sizeof_thread"
    using assms(3) by (auto simp: arr_ok_def unat_eq_0)
  then show ?thesis
    using assms(1,2) by (simp add: prethd_join_def join_loop_eq)
qed

lemma prethd_join_not_null: "prethd_join th rc s = Some (True, s0) \<Longrightarrow> th \<noteq> NULL"
  by (auto simp: prethd_join_def)

lemma prethd_join_frame:
  assumes "prethd_join th rc s = Some (b, s0)"
  shows "\<exists>es. s0 = emits es s"
proof (cases "th = NULL")
  case True
  with assms have "s0 = emits [] s" by (simp add: prethd_join_def)
  then show ?thesis ..
next
  case False
  with assms show ?thesis
    by (auto simp: prethd_join_def join_loop_eq split: Option.bind_splits if_splits)
qed

subsection \<open>The sum of the return values\<close>

lemma word_sum_sint:
  "(\<Sum>j = 0..<n::nat. rc j) = (word_of_int (\<Sum>j = 0..<n. sint (rc j)) :: cint)"
  by (induction n) simp_all

lemma sum_list_upt: "sum_list (map f [0..<n]) = (\<Sum>j = 0..<n. f j)"
  by (simp add: sum_list_distinct_conv_sum_set)

lemma codes_fit_zero:
  assumes "codes_fit rc n"
  shows "((\<Sum>j = 0..<n. rc j) = 0) = list_all (\<lambda>i. rc i = 0) [0..<n]"
proof -
  let ?S = "\<Sum>j = 0..<n. sint (rc j)"
  from assms have nonneg: "\<And>j. j < n \<Longrightarrow> 0 \<le> sint (rc j)"
    and le: "?S \<le> 2147483647"
    by (auto simp: codes_fit_def list_all_iff sum_list_upt)
  have S0: "0 \<le> ?S" by (rule sum_nonneg) (simp add: nonneg)
  have "((\<Sum>j = 0..<n. rc j) = 0) = (?S = 0)"
  proof -
    have "(word_of_int ?S :: cint) = 0 \<longleftrightarrow> 2 ^ LENGTH(32) dvd ?S"
      by (rule word_of_int_eq_0_iff)
    also have "\<dots> \<longleftrightarrow> ?S = 0"
    proof
      assume d: "2 ^ LENGTH(32) dvd ?S"
      show "?S = 0"
      proof (rule ccontr)
        assume "?S \<noteq> 0"
        with S0 have "0 < ?S" by simp
        with d have "2 ^ LENGTH(32) \<le> ?S" by (rule zdvd_imp_le)
        with le show False by simp
      qed
    next
      assume "?S = 0"
      then show "2 ^ LENGTH(32) dvd ?S" by simp
    qed
    finally show ?thesis by (simp only: word_sum_sint)
  qed
  also have "\<dots> = (\<forall>j\<in>{0..<n}. sint (rc j) = 0)"
    by (rule sum_nonneg_eq_0_iff) (simp_all add: nonneg)
  also have "\<dots> = list_all (\<lambda>i. rc i = 0) [0..<n]"
    by (simp add: list_all_iff signed_eq_0_iff)
  finally show ?thesis .
qed

subsection \<open>Construction\<close>

lemma fits_unat: "fits n sz \<Longrightarrow> unat (n * sz) = unat n * unat sz"
  by (simp add: fits_def unat_mult_lem [symmetric])

lemma malloc_eq:
  "malloc ok n s =
     (if ok then (Suc (length (heap s)),
                  emits [Malloc n (Suc (length (heap s)))] (s\<lparr>heap := heap s @ [Some (unat n)]\<rparr>))
      else (NULL, emits [Malloc n NULL] s))"
  by (simp add: malloc_def emit_emits Let_def)

lemma init_muts_zero: "init_muts ok 0 s = Some (NULL, s)"
  by (simp add: init_muts_def)

lemma init_conds_zero: "init_conds ok 0 s = Some (NULL, s)"
  by (simp add: init_conds_def)

lemma init_muts_granted:
  assumes "n \<noteq> 0" and "fits n sizeof_mutex"
  shows "init_muts True n s =
     Some (Suc (length (heap s)),
           emits (Malloc (n * sizeof_mutex) (Suc (length (heap s))) #
                  map (MutexInit (Suc (length (heap s)))) [0..<unat n])
             (s\<lparr>heap := heap s @ [Some (unat n * unat sizeof_mutex)]\<rparr>))"
  using assms unat_pos [OF assms(1)]
  by (simp add: init_muts_def malloc_eq each_elem_eq NULL_def elem_ok_def block_size_def
      fits_unat nth_append)

lemma init_conds_granted:
  assumes "n \<noteq> 0" and "fits n sizeof_cond"
  shows "init_conds True n s =
     Some (Suc (length (heap s)),
           emits (Malloc (n * sizeof_cond) (Suc (length (heap s))) #
                  map (CondInit (Suc (length (heap s)))) [0..<unat n])
             (s\<lparr>heap := heap s @ [Some (unat n * unat sizeof_cond)]\<rparr>))"
  using assms unat_pos [OF assms(1)]
  by (simp add: init_conds_def malloc_eq each_elem_eq NULL_def elem_ok_def block_size_def
      fits_unat nth_append)

lemma init_muts_shape:
  assumes "init_muts ok n s = Some (m, s1)"
  shows "pools s1 = pools s \<and> started s1 = started s \<and>
     (m = NULL \<and> heap s1 = heap s \<or>
      m = Suc (length (heap s)) \<and> n \<noteq> 0 \<and>
      heap s1 = heap s @ [Some (unat (n * sizeof_mutex))] \<and>
      unat n * unat sizeof_mutex \<le> unat (n * sizeof_mutex))"
  using assms unat_pos [of n]
  by (auto simp: init_muts_def malloc_eq each_elem_eq NULL_def elem_ok_def block_size_def
      nth_append split: if_splits)

lemma init_conds_shape:
  assumes "init_conds ok n s = Some (c, s1)"
  shows "pools s1 = pools s \<and> started s1 = started s \<and>
     (c = NULL \<and> heap s1 = heap s \<or>
      c = Suc (length (heap s)) \<and> n \<noteq> 0 \<and>
      heap s1 = heap s @ [Some (unat (n * sizeof_cond))] \<and>
      unat n * unat sizeof_cond \<le> unat (n * sizeof_cond))"
  using assms unat_pos [of n]
  by (auto simp: init_conds_def malloc_eq each_elem_eq NULL_def elem_ok_def block_size_def
      nth_append split: if_splits)

lemma prethd_new_Some:
  assumes "prethd_new th mut cond al s = Some (p, s1)" and "p \<noteq> NULL"
  shows "\<exists>s0 m s2 c s3.
    p = Suc (length (heap s)) \<and>
    heap s0 = heap s @ [Some (unat sizeof_pool)] \<and>
    init_muts (muts_granted al) mut s0 = Some (m, s2) \<and>
    init_conds (conds_granted al) cond s2 = Some (c, s3) \<and>
    heap s1 = heap s3 @ [Some (unat (th * sizeof_thread))] \<and>
    pools s1 p = Some \<lparr>muts = m, conds = c, threads = Suc (length (heap s3)),
        len = th, mlen = mut, clen = cond\<rparr> \<and>
    trace s1 = trace s3 @ [Malloc (th * sizeof_thread) (Suc (length (heap s3)))] \<and>
    started s1 = started s3"
proof -
  let ?s0 = "emits [Malloc sizeof_pool (Suc (length (heap s)))]
      (s\<lparr>heap := heap s @ [Some (unat sizeof_pool)]\<rparr>)"
  from assms have g: "th \<noteq> 0" "pool_granted al" "p = Suc (length (heap s))"
    by (auto simp: prethd_new_def malloc_eq NULL_def
        split: if_splits prod.splits Option.bind_splits)
  from assms g obtain m s2 where im: "init_muts (muts_granted al) mut ?s0 = Some (m, s2)"
    by (auto simp: prethd_new_def malloc_eq NULL_def split: Option.bind_splits)
  from assms g im obtain c s3 where ic: "init_conds (conds_granted al) cond s2 = Some (c, s3)"
    by (auto simp: prethd_new_def malloc_eq NULL_def split: Option.bind_splits)
  from assms g im ic have
    "s1 = emits [Malloc (th * sizeof_thread) (Suc (length (heap s3)))]
        (s3\<lparr>heap := heap s3 @ [Some (unat (th * sizeof_thread))]\<rparr>)
        \<lparr>pools := (pools s3)(p \<mapsto> \<lparr>muts = m, conds = c, threads = Suc (length (heap s3)),
            len = th, mlen = mut, clen = cond\<rparr>)\<rparr>"
    by (auto simp: prethd_new_def malloc_eq NULL_def split: if_splits Option.bind_splits)
  then have "heap s1 = heap s3 @ [Some (unat (th * sizeof_thread))]"
    and "pools s1 p = Some \<lparr>muts = m, conds = c, threads = Suc (length (heap s3)),
        len = th, mlen = mut, clen = cond\<rparr>"
    and "trace s1 = trace s3 @ [Malloc (th * sizeof_thread) (Suc (length (heap s3)))]"
    and "started s1 = started s3"
    by simp_all
  moreover have "heap ?s0 = heap s @ [Some (unat sizeof_pool)]" by simp
  ultimately show ?thesis using g im ic by blast
qed

lemma block_size_nth: "heap s = xs @ x # ys \<Longrightarrow> block_size s (Suc (length xs)) = x"
  by (simp add: block_size_def NULL_def nth_append)

lemma new_releasable:
  assumes "prethd_new th mut cond al s = Some (p, s1)" and "p \<noteq> NULL"
  shows "\<exists>pl. releasable s1 p pl \<and> len pl = th \<and> mlen pl = mut \<and> clen pl = cond \<and>
     (mut = 0 \<longrightarrow> muts pl = NULL) \<and> (cond = 0 \<longrightarrow> conds pl = NULL) \<and>
     block_size s1 (threads pl) = Some (unat (th * sizeof_thread)) \<and>
     (muts_granted al \<and> mut \<noteq> 0 \<longrightarrow> muts pl \<noteq> NULL) \<and>
     (conds_granted al \<and> cond \<noteq> 0 \<longrightarrow> conds pl \<noteq> NULL)"
proof -
  from prethd_new_Some [OF assms] obtain s0 m s2 c s3 where
    p: "p = Suc (length (heap s))" and
    h0: "heap s0 = heap s @ [Some (unat sizeof_pool)]" and
    im: "init_muts (muts_granted al) mut s0 = Some (m, s2)" and
    ic: "init_conds (conds_granted al) cond s2 = Some (c, s3)" and
    h1: "heap s1 = heap s3 @ [Some (unat (th * sizeof_thread))]" and
    pl: "pools s1 p = Some \<lparr>muts = m, conds = c, threads = Suc (length (heap s3)),
        len = th, mlen = mut, clen = cond\<rparr>"
    by blast
  let ?t = "Suc (length (heap s3))"
  let ?pl = "\<lparr>muts = m, conds = c, threads = ?t, len = th, mlen = mut, clen = cond\<rparr>"
  have m0: "mut = 0 \<longrightarrow> m = NULL" using im by (auto simp: init_muts_zero)
  have c0: "cond = 0 \<longrightarrow> c = NULL" using ic by (auto simp: init_conds_zero)
  have m1: "muts_granted al \<and> mut \<noteq> 0 \<longrightarrow> m \<noteq> NULL"
    using im by (auto simp: init_muts_def malloc_eq NULL_def split: if_splits option.splits)
  have c1: "conds_granted al \<and> cond \<noteq> 0 \<longrightarrow> c \<noteq> NULL"
    using ic by (auto simp: init_conds_def malloc_eq NULL_def split: if_splits option.splits)
  from init_muts_shape [OF im] have
    ms: "m = NULL \<and> heap s2 = heap s0 \<or>
      m = Suc (length (heap s0)) \<and> mut \<noteq> 0 \<and>
      heap s2 = heap s0 @ [Some (unat (mut * sizeof_mutex))] \<and>
      unat mut * unat sizeof_mutex \<le> unat (mut * sizeof_mutex)"
    by blast
  from init_conds_shape [OF ic] have
    cs: "c = NULL \<and> heap s3 = heap s2 \<or>
      c = Suc (length (heap s2)) \<and> cond \<noteq> 0 \<and>
      heap s3 = heap s2 @ [Some (unat (cond * sizeof_cond))] \<and>
      unat cond * unat sizeof_cond \<le> unat (cond * sizeof_cond)"
    by blast
  have len2: "length (heap s0) \<le> length (heap s2)" using ms by auto
  have len3: "length (heap s2) \<le> length (heap s3)" using cs by auto
  have len0: "length (heap s0) = Suc (length (heap s))" using h0 by simp
  have bt: "block_size s1 ?t = Some (unat (th * sizeof_thread))"
    using h1 by (intro block_size_nth) simp
  have "\<exists>ys. heap s1 = heap s @ Some (unat sizeof_pool) # ys"
    using ms cs h0 h1 by auto
  then have bp: "block_size s1 p = Some (unat sizeof_pool)"
    unfolding p by (auto intro: block_size_nth)
  have lp: "load_pool s1 p = Some ?pl"
    using bp pl by (simp add: load_pool_def)
  have tp: "?t \<noteq> p" using p len0 len2 len3 by simp
  have mm: "m = NULL \<or> mut = 0 \<or>
      elem_ok s1 m (unat mut - 1) sizeof_mutex \<and> m \<noteq> p \<and> m \<noteq> ?t"
  proof (cases "m = NULL")
    case False
    with ms have m: "m = Suc (length (heap s0))" and n: "mut \<noteq> 0"
      and h2: "heap s2 = heap s0 @ [Some (unat (mut * sizeof_mutex))]"
      and fit: "unat mut * unat sizeof_mutex \<le> unat (mut * sizeof_mutex)"
      by auto
    have "\<exists>ys. heap s1 = heap s0 @ Some (unat (mut * sizeof_mutex)) # ys"
      using cs h1 h2 by auto
    then have "block_size s1 m = Some (unat (mut * sizeof_mutex))"
      unfolding m by (auto intro: block_size_nth)
    then have "elem_ok s1 m (unat mut - 1) sizeof_mutex"
      using fit unat_pos [OF n] by (simp add: elem_ok_def)
    moreover have "m \<noteq> p" using m p len0 by simp
    moreover have "m \<noteq> ?t" using m h2 len3 by simp
    ultimately show ?thesis by simp
  qed simp
  have cc: "c = NULL \<or> cond = 0 \<or>
      elem_ok s1 c (unat cond - 1) sizeof_cond \<and> c \<noteq> p \<and> c \<noteq> ?t \<and>
      (m = NULL \<or> mut = 0 \<or> c \<noteq> m)"
  proof (cases "c = NULL")
    case False
    with cs have c: "c = Suc (length (heap s2))" and n: "cond \<noteq> 0"
      and h3: "heap s3 = heap s2 @ [Some (unat (cond * sizeof_cond))]"
      and fit: "unat cond * unat sizeof_cond \<le> unat (cond * sizeof_cond)"
      by auto
    have "heap s1 = heap s2 @ Some (unat (cond * sizeof_cond)) # [Some (unat (th * sizeof_thread))]"
      using h1 h3 by simp
    then have "block_size s1 c = Some (unat (cond * sizeof_cond))"
      unfolding c by (rule block_size_nth)
    then have "elem_ok s1 c (unat cond - 1) sizeof_cond"
      using fit unat_pos [OF n] by (simp add: elem_ok_def)
    moreover have "c \<noteq> p" using c p len0 len2 by simp
    moreover have "c \<noteq> ?t" using c h3 by simp
    moreover have "m = NULL \<or> c \<noteq> m" using c ms by auto
    ultimately show ?thesis by blast
  qed simp
  have "releasable s1 p ?pl"
    unfolding releasable_def using assms(2) lp bt tp mm cc by simp
  then show ?thesis using m0 c0 m1 c1 bt by auto
qed

lemma prethd_new_granted:
  assumes "th \<noteq> 0" and "allocs_succeed th mut cond al"
  shows "\<exists>p s1. prethd_new th mut cond al s = Some (p, s1) \<and> p \<noteq> NULL"
proof -
  from assms(2) have g: "pool_granted al" "muts_granted al" "conds_granted al"
      "threads_granted al" "fits mut sizeof_mutex" "fits cond sizeof_cond"
    by (simp_all add: allocs_succeed_def)
  let ?s0 = "emits [Malloc sizeof_pool (Suc (length (heap s)))]
      (s\<lparr>heap := heap s @ [Some (unat sizeof_pool)]\<rparr>)"
  obtain m s2 where im: "init_muts True mut ?s0 = Some (m, s2)"
    using g(5) by (cases "mut = 0") (simp_all add: init_muts_zero init_muts_granted)
  obtain c s3 where ic: "init_conds True cond s2 = Some (c, s3)"
    using g(6) by (cases "cond = 0") (simp_all add: init_conds_zero init_conds_granted)
  show ?thesis
    using assms(1) g(1-4) im ic by (simp add: prethd_new_def malloc_eq NULL_def)
qed

subsection \<open>Release\<close>

lemma block_size_release:
  "a \<noteq> NULL \<Longrightarrow>
   block_size (s\<lparr>heap := (heap s)[a - Suc 0 := None]\<rparr>) b =
     (if b = a then None else block_size s b)"
  by (auto simp: block_size_def NULL_def nth_list_update)

lemma free_ok:
  assumes "block_size s a \<noteq> None"
  shows "\<exists>s'. free a s = Some s' \<and> trace s' = trace s @ [Free a] \<and>
     pools s' = pools s \<and> started s' = started s \<and>
     (\<forall>b. block_size s' b = (if b = a then None else block_size s b))"
proof -
  from assms have a: "a \<noteq> NULL" by (auto simp: block_size_def)
  let ?s' = "emits [Free a] (s\<lparr>heap := (heap s)[a - 1 := None]\<rparr>)"
  from assms a have "free a s = Some ?s'"
    by (auto simp: free_def emit_emits)
  moreover have "\<forall>b. block_size ?s' b = (if b = a then None else block_size s b)"
    using a by (simp add: block_size_release)
  ultimately show ?thesis by simp
qed

lemma des_muts_ok:
  assumes "ms = NULL \<or> n = 0 \<or> elem_ok s ms (unat n - 1) sizeof_mutex"
  shows "\<exists>s'. des_muts ms n s = Some s' \<and>
     trace s' = trace s @
       (if ms = NULL \<or> n = 0 then [] else map (MutexDestroy ms) [0..<unat n] @ [Free ms]) \<and>
     pools s' = pools s \<and> started s' = started s \<and>
     (\<forall>b. block_size s' b = (if ms \<noteq> NULL \<and> n \<noteq> 0 \<and> b = ms then None else block_size s b))"
proof (cases "ms = NULL \<or> n = 0")
  case True
  then have "des_muts ms n s = Some s"
    by (auto simp: des_muts_def)
  with True show ?thesis by auto
next
  case False
  with assms have e: "elem_ok s ms (unat n - 1) sizeof_mutex" by simp
  let ?s1 = "emits (map (MutexDestroy ms) [0..<unat n]) s"
  from e have "block_size ?s1 ms \<noteq> None" by (simp add: elem_ok_live)
  from free_ok [OF this] obtain s' where "free ms ?s1 = Some s'"
    "trace s' = trace ?s1 @ [Free ms]" "pools s' = pools ?s1" "started s' = started ?s1"
    "\<forall>b. block_size s' b = (if b = ms then None else block_size ?s1 b)"
    by blast
  moreover have "des_muts ms n s = free ms ?s1"
    using False e by (simp add: des_muts_def each_elem_eq word_greater_zero_iff)
  ultimately show ?thesis using False by auto
qed

lemma des_conds_ok:
  assumes "cs = NULL \<or> n = 0 \<or> elem_ok s cs (unat n - 1) sizeof_cond"
  shows "\<exists>s'. des_conds cs n s = Some s' \<and>
     trace s' = trace s @
       (if cs = NULL \<or> n = 0 then [] else map (CondDestroy cs) [0..<unat n] @ [Free cs]) \<and>
     pools s' = pools s \<and> started s' = started s \<and>
     (\<forall>b. block_size s' b = (if cs \<noteq> NULL \<and> n \<noteq> 0 \<and> b = cs then None else block_size s b))"
proof (cases "cs = NULL \<or> n = 0")
  case True
  then have "des_conds cs n s = Some s"
    by (auto simp: des_conds_def)
  with True show ?thesis by auto
next
  case False
  with assms have e: "elem_ok s cs (unat n - 1) sizeof_cond" by simp
  let ?s1 = "emits (map (CondDestroy cs) [0..<unat n]) s"
  from e have "block_size ?s1 cs \<noteq> None" by (simp add: elem_ok_live)
  from free_ok [OF this] obtain s' where "free cs ?s1 = Some s'"
    "trace s' = trace ?s1 @ [Free cs]" "pools s' = pools ?s1" "started s' = started ?s1"
    "\<forall>b. block_size s' b = (if b = cs then None else block_size ?s1 b)"
    by blast
  moreover have "des_conds cs n s = free cs ?s1"
    using False e by (simp add: des_conds_def each_elem_eq word_greater_zero_iff)
  ultimately show ?thesis using False by auto
qed

lemma prethd_free_ok:
  assumes "releasable s th p"
  shows "\<exists>s'. prethd_free th s = Some s' \<and>
     trace s' = trace s @
       (if muts p = NULL \<or> mlen p = 0 then []
        else map (MutexDestroy (muts p)) [0..<unat (mlen p)] @ [Free (muts p)]) @
       (if conds p = NULL \<or> clen p = 0 then []
        else map (CondDestroy (conds p)) [0..<unat (clen p)] @ [Free (conds p)]) @
       [Free (threads p), Free th] \<and>
     block_size s' th = None \<and> block_size s' (threads p) = None \<and>
     pools s' = pools s \<and> started s' = started s"
proof -
  from assms have th: "th \<noteq> NULL" and lp: "load_pool s th = Some p"
    and bt: "block_size s (threads p) \<noteq> None" and tp: "threads p \<noteq> th"
    and mm: "muts p = NULL \<or> mlen p = 0 \<or>
         elem_ok s (muts p) (unat (mlen p) - 1) sizeof_mutex \<and>
         muts p \<noteq> th \<and> muts p \<noteq> threads p"
    and cc: "conds p = NULL \<or> clen p = 0 \<or>
         elem_ok s (conds p) (unat (clen p) - 1) sizeof_cond \<and>
         conds p \<noteq> th \<and> conds p \<noteq> threads p \<and>
         (muts p = NULL \<or> mlen p = 0 \<or> conds p \<noteq> muts p)"
    by (simp_all add: releasable_def)
  from lp have bth: "block_size s th \<noteq> None"
    by (auto simp: load_pool_def split: option.splits)
  from mm have "muts p = NULL \<or> mlen p = 0 \<or> elem_ok s (muts p) (unat (mlen p) - 1) sizeof_mutex"
    by blast
  from des_muts_ok [OF this] obtain s1 where
    d1: "des_muts (muts p) (mlen p) s = Some s1" and
    t1: "trace s1 = trace s @
       (if muts p = NULL \<or> mlen p = 0 then []
        else map (MutexDestroy (muts p)) [0..<unat (mlen p)] @ [Free (muts p)])" and
    p1: "pools s1 = pools s" and st1: "started s1 = started s" and
    b1: "\<And>b. block_size s1 b =
        (if muts p \<noteq> NULL \<and> mlen p \<noteq> 0 \<and> b = muts p then None else block_size s b)"
    by blast
  have b1th: "block_size s1 th = block_size s th" using b1 mm by auto
  have b1t: "block_size s1 (threads p) = block_size s (threads p)" using b1 mm by auto
  have lp1: "load_pool s1 th = Some p"
    using load_pool_frame [OF p1 b1th] lp by simp
  have "conds p = NULL \<or> clen p = 0 \<or> elem_ok s1 (conds p) (unat (clen p) - 1) sizeof_cond"
  proof -
    { assume n: "conds p \<noteq> NULL" "clen p \<noteq> 0"
      with cc have e: "elem_ok s (conds p) (unat (clen p) - 1) sizeof_cond"
        and ne: "muts p = NULL \<or> mlen p = 0 \<or> conds p \<noteq> muts p" by auto
      from ne have "block_size s1 (conds p) = block_size s (conds p)" using b1 by auto
      from elem_ok_frame [OF this] e
      have "elem_ok s1 (conds p) (unat (clen p) - 1) sizeof_cond" by simp }
    then show ?thesis by blast
  qed
  from des_conds_ok [OF this] obtain s2 where
    d2: "des_conds (conds p) (clen p) s1 = Some s2" and
    t2: "trace s2 = trace s1 @
       (if conds p = NULL \<or> clen p = 0 then []
        else map (CondDestroy (conds p)) [0..<unat (clen p)] @ [Free (conds p)])" and
    p2: "pools s2 = pools s1" and st2: "started s2 = started s1" and
    b2: "\<And>b. block_size s2 b =
        (if conds p \<noteq> NULL \<and> clen p \<noteq> 0 \<and> b = conds p then None else block_size s1 b)"
    by blast
  have b2th: "block_size s2 th = block_size s th" using b2 b1th cc by auto
  have b2t: "block_size s2 (threads p) = block_size s (threads p)" using b2 b1t cc by auto
  have lp2: "load_pool s2 th = Some p"
    using load_pool_frame [of s2 s th] p1 p2 b2th lp by simp
  from bt b2t have "block_size s2 (threads p) \<noteq> None" by simp
  from free_ok [OF this] obtain s3 where
    d3: "free (threads p) s2 = Some s3" and
    t3: "trace s3 = trace s2 @ [Free (threads p)]" and
    p3: "pools s3 = pools s2" and st3: "started s3 = started s2" and
    b3: "\<And>b. block_size s3 b = (if b = threads p then None else block_size s2 b)"
    by blast
  have "block_size s3 th \<noteq> None" using b3 b2th bth tp by simp
  from free_ok [OF this] obtain s4 where
    d4: "free th s3 = Some s4" and
    t4: "trace s4 = trace s3 @ [Free th]" and
    p4: "pools s4 = pools s3" and st4: "started s4 = started s3" and
    b4: "\<And>b. block_size s4 b = (if b = th then None else block_size s3 b)"
    by blast
  have "prethd_free th s = Some s4"
    using th lp d1 lp1 d2 lp2 d3 d4 by (simp add: prethd_free_def)
  moreover have "block_size s4 th = None" using b4 by simp
  moreover have "block_size s4 (threads p) = None" using b4 b3 by simp
  ultimately show ?thesis
    using t1 t2 t3 t4 p1 p2 p3 p4 st1 st2 st3 st4 by simp
qed

subsection \<open>The operations leave the heap and the pool objects alone\<close>

lemma pool_ok_frame:
  assumes "heap s' = heap s" and "pools s' = pools s"
  shows "pool_ok s' th = pool_ok s th"
proof -
  from assms(1) have b: "\<And>a. block_size s' a = block_size s a"
    by (simp add: block_size_def)
  then have e: "\<And>base i sz. elem_ok s' base i sz = elem_ok s base i sz"
    by (simp add: elem_ok_def)
  have l: "load_pool s' th = load_pool s th"
    using b assms(2) by (intro load_pool_frame) simp_all
  show ?thesis
    by (simp add: pool_ok_def l arr_ok_def e split: option.splits)
qed

lemma sizes_frame:
  assumes "heap s' = heap s" and "pools s' = pools s"
  shows "prethd_size th s' = prethd_size th s \<and>
     prethd_mutex_size th s' = prethd_mutex_size th s \<and>
     prethd_cond_size th s' = prethd_cond_size th s"
proof -
  from assms(1) have b: "\<And>a. block_size s' a = block_size s a"
    by (simp add: block_size_def)
  have l: "load_pool s' th = load_pool s th"
    using b assms(2) by (intro load_pool_frame) simp_all
  show ?thesis
    by (simp add: prethd_size_def prethd_mutex_size_def prethd_cond_size_def l)
qed

lemma releasable_frame:
  assumes "heap s' = heap s" and "pools s' = pools s"
  shows "releasable s' th p = releasable s th p"
proof -
  from assms(1) have b: "\<And>a. block_size s' a = block_size s a"
    by (simp add: block_size_def)
  then have e: "\<And>base i sz. elem_ok s' base i sz = elem_ok s base i sz"
    by (simp add: elem_ok_def)
  have l: "load_pool s' th = load_pool s th"
    using b assms(2) by (intro load_pool_frame) simp_all
  show ?thesis
    by (simp add: releasable_def l b e)
qed

lemma all_loop_frame:
  "all_loop ts rc i n ret s = Some (k, s') \<Longrightarrow> heap s' = heap s \<and> pools s' = pools s"
  by (auto simp: all_loop_eq split: if_splits)

lemma apply_op_frame:
  assumes "apply_op th x s = Some s'"
  shows "heap s' = heap s \<and> pools s' = pools s"
proof (cases x)
  case (StartAll rc)
  with assms show ?thesis
    by (auto simp: prethd_all_def split: if_splits Option.bind_splits dest: all_loop_frame)
next
  case (JoinAll rc)
  with assms obtain b where "prethd_join th rc s = Some (b, s')" by auto
  from prethd_join_frame [OF this] show ?thesis by auto
next
  case (LockOp i r)
  with assms show ?thesis
    by (auto simp: prethd_lock_def prim_eq split: if_splits Option.bind_splits)
next
  case (UnlockOp i r)
  with assms show ?thesis
    by (auto simp: prethd_unlock_def prim_eq split: if_splits Option.bind_splits)
next
  case (WaitOp c m r)
  with assms show ?thesis
    by (auto simp: prethd_wait_def prim_eq split: if_splits Option.bind_splits)
next
  case (SignalOp i r)
  with assms show ?thesis
    by (auto simp: prethd_signal_def prim_eq split: if_splits Option.bind_splits)
next
  case (BroadOp i r)
  with assms show ?thesis
    by (auto simp: prethd_broad_def prim_eq split: if_splits Option.bind_splits)
qed

lemma apply_op_total:
  assumes "pool_ok s th"
  shows "\<exists>s'. apply_op th x s = Some s'"
proof -
  from assms obtain p where th: "th \<noteq> NULL" and lp: "load_pool s th = Some p"
    and at: "arr_ok s (threads p) (len p) sizeof_thread"
    and am: "arr_ok s (muts p) (mlen p) sizeof_mutex"
    and ac: "arr_ok s (conds p) (clen p) sizeof_cond"
    by (auto simp: pool_ok_def split: option.splits)
  have em: "\<And>i. i < mlen p \<Longrightarrow> elem_ok s (muts p) (unat i) sizeof_mutex"
    using am by (auto intro: arr_ok_elem simp: word_less_nat_alt)
  have ec: "\<And>i. i < clen p \<Longrightarrow> elem_ok s (conds p) (unat i) sizeof_cond"
    using ac by (auto intro: arr_ok_elem simp: word_less_nat_alt)
  show ?thesis
  proof (cases x)
    case (StartAll rc)
    then show ?thesis by (simp add: prethd_all_eq [OF th lp at])
  next
    case (JoinAll rc)
    then show ?thesis by (simp add: prethd_join_eq [OF th lp at])
  next
    case (LockOp i r)
    then show ?thesis using th lp em [of i]
      by (cases "mlen p \<le> i") (auto simp: prethd_lock_def prim_eq)
  next
    case (UnlockOp i r)
    then show ?thesis using th lp em [of i]
      by (cases "mlen p \<le> i") (auto simp: prethd_unlock_def prim_eq)
  next
    case (WaitOp c m r)
    then show ?thesis using th lp em [of m] ec [of c]
      by (cases "clen p \<le> c \<or> mlen p \<le> m") (auto simp: prethd_wait_def prim_eq)
  next
    case (SignalOp i r)
    then show ?thesis using th lp ec [of i]
      by (cases "clen p \<le> i") (auto simp: prethd_signal_def prim_eq)
  next
    case (BroadOp i r)
    then show ?thesis using th lp ec [of i]
      by (cases "clen p \<le> i") (auto simp: prethd_broad_def prim_eq)
  qed
qed

lemma run_ops_frame:
  "run_ops th xs s = Some s' \<Longrightarrow> heap s' = heap s \<and> pools s' = pools s"
proof (induction xs arbitrary: s)
  case Nil
  then show ?case by simp
next
  case (Cons x xs)
  from Cons.prems obtain s1 where a: "apply_op th x s = Some s1"
    and r: "run_ops th xs s1 = Some s'"
    by (auto split: option.splits)
  from apply_op_frame [OF a] Cons.IH [OF r] show ?case by simp
qed

lemma run_ops_total: "pool_ok s th \<Longrightarrow> \<exists>s'. run_ops th xs s = Some s'"
proof (induction xs arbitrary: s)
  case Nil
  then show ?case by simp
next
  case (Cons x xs)
  from apply_op_total [OF Cons.prems] obtain s1 where a: "apply_op th x s = Some s1"
    by blast
  from apply_op_frame [OF a] Cons.prems have "pool_ok s1 th"
    using pool_ok_frame [of s1 s th] by simp
  from Cons.IH [OF this] a show ?case by simp
qed

subsection \<open>The concrete pools\<close>

lemmas constr_defs = prethd_new_def init_state_def malloc_def NULL_def emit_def sizeof_pool_def init_muts_def init_conds_def
     sizeof_mutex_def sizeof_cond_def sizeof_thread_def prim_def elem_ok_def block_size_def all_ok_def
     demo_pool_def emits_def load_pool_def

lemmas demo_defs = demo_pool_def demo_obj_def demo_partial_def NULL_def load_pool_def block_size_def
  elem_ok_def arr_ok_def sizeof_thread_def sizeof_mutex_def sizeof_cond_def emits_def

lemma upt_0_2: "[0..<2] = [0, 1]"
  by (simp add: upt_rec)

lemma sum_0_2: "(\<Sum>j = 0..<2. f j) = f 0 + f (1::nat)"
  by (simp add: numeral_2_eq_2)

lemma demo_pool_new: "prethd_new 2 1 1 all_ok init_state = Some (1, demo_pool)"
  by (simp add: constr_defs each_elem_eq) (simp add: numeral_eq_Suc)

lemma bare_pool_new: "prethd_new 1 0 0 all_ok init_state = Some (1, bare_pool)"
  by (simp add: constr_defs bare_pool_def) (simp add: numeral_eq_Suc)

lemma demo_pool_load: "load_pool demo_pool 1 = Some demo_obj"
  by (simp add: demo_defs)

lemma demo_pool_ok: "pool_ok demo_pool 1"
  by (simp add: pool_ok_def demo_defs)

section \<open>Construction\<close>

text \<open>
  C3. The claim: \<^verbatim>\<open>prethd_new(0, mut, cond)\<close> returns \<^verbatim>\<open>NULL\<close> for every \<open>mut\<close> and
  \<open>cond\<close>, and for every \<open>th \<ge> 1\<close> and every \<open>mut\<close> and \<open>cond\<close>, when the allocations
  succeed, it returns a valid pool that reports exactly the three counts. The code
  computes the size of each array as \<open>n * sizeof(T)\<close> in \<^verbatim>\<open>size_t\<close> and does not test
  whether the product wraps around. With every \<^verbatim>\<open>malloc\<close> granted:
  for \<open>mut = 2^61\<close> the product is 0 and for \<open>mut = 2^61 + 1\<close> it is 40, the block holds
  no mutex or one, and the loop of \<^verbatim>\<open>init_muts\<close> initialises mutexes outside the block:
  \<^verbatim>\<open>prethd_new\<close> returns no pool. For \<open>th = 2^61\<close> the pool that is returned reports
  \<open>2^61\<close> threads over a thread array of 0 bytes, and \<^verbatim>\<open>prethd_all\<close> on it writes the
  first handle outside the block.
\<close>

theorem new_faults_on_wrapped_size:
  "(2305843009213693952 :: size_t) * sizeof_mutex = 0 \<and>
   prethd_new 1 2305843009213693952 0 all_ok init_state = None \<and>
   (2305843009213693953 :: size_t) * sizeof_mutex = 40 \<and>
   prethd_new 1 2305843009213693953 0 all_ok init_state = None \<and>
   prethd_new 2305843009213693952 0 0 all_ok init_state = Some (1, wrapped_pool) \<and>
   prethd_size 1 wrapped_pool = Some 2305843009213693952 \<and>
   \<not> pool_ok wrapped_pool 1 \<and>
   prethd_all 1 rc wrapped_pool = None"
proof -
  have a: "(2305843009213693952 :: size_t) * sizeof_mutex = 0"
    and b: "(2305843009213693953 :: size_t) * sizeof_mutex = 40"
    by (simp_all add: sizeof_mutex_def)
  have c: "prethd_new 1 2305843009213693952 0 all_ok init_state = None"
    by (simp add: constr_defs each_elem_eq)
  have d: "prethd_new 1 2305843009213693953 0 all_ok init_state = None"
    by (simp add: constr_defs each_elem_eq)
  have e: "prethd_new 2305843009213693952 0 0 all_ok init_state = Some (1, wrapped_pool)"
    by (simp add: constr_defs wrapped_pool_def) (simp add: numeral_eq_Suc)
  have l: "load_pool wrapped_pool 1 =
      Some \<lparr>muts = 0, conds = 0, threads = 2, len = 2305843009213693952, mlen = 0, clen = 0\<rparr>"
    by (simp add: wrapped_pool_def load_pool_def block_size_def NULL_def)
  have f: "prethd_size 1 wrapped_pool = Some 2305843009213693952"
    using l by (simp add: prethd_size_def NULL_def)
  have g: "\<not> pool_ok wrapped_pool 1"
    using l by (simp add: pool_ok_def arr_ok_def elem_ok_def block_size_def wrapped_pool_def
        NULL_def sizeof_thread_def)
  have h: "prethd_all 1 rc wrapped_pool = None"
    using l by (simp add: prethd_all_def NULL_def all_loop.simps [of _ _ 0] pthread_create_eq
        elem_ok_def block_size_def wrapped_pool_def sizeof_thread_def)
  from a b c d e f g h show ?thesis by simp
qed

text \<open>
  What holds of the claim: \<^verbatim>\<open>prethd_new(0, mut, cond)\<close> returns \<^verbatim>\<open>NULL\<close> without any
  allocation; and for \<open>th \<ge> 1\<close>, when the allocator grants every request and no array
  size wraps around (\<open>allocs_succeed\<close>), the result is a pool that is not \<^verbatim>\<open>NULL\<close>, whose
  three arrays hold their elements, and on which \<^verbatim>\<open>prethd_size\<close>,
  \<^verbatim>\<open>prethd_mutex_size\<close> and \<^verbatim>\<open>prethd_cond_size\<close> return \<open>th\<close>, \<open>mut\<close> and \<open>cond\<close>.
\<close>

proposition new_valid:
  "prethd_new 0 mut cond al s = Some (NULL, s) \<and>
   (th \<noteq> 0 \<and> allocs_succeed th mut cond al \<longrightarrow>
     (\<exists>p s'. prethd_new th mut cond al s = Some (p, s') \<and> p \<noteq> NULL \<and> pool_ok s' p \<and>
        prethd_size p s' = Some th \<and>
        prethd_mutex_size p s' = Some mut \<and>
        prethd_cond_size p s' = Some cond))"
proof (intro conjI impI)
  show "prethd_new 0 mut cond al s = Some (NULL, s)"
    by (simp add: prethd_new_def)
next
  assume a: "th \<noteq> 0 \<and> allocs_succeed th mut cond al"
  then have th: "th \<noteq> 0" and g: "muts_granted al" "conds_granted al"
    and ft: "fits th sizeof_thread"
    by (simp_all add: allocs_succeed_def)
  from a prethd_new_granted [of th mut cond al s] obtain p s1 where
    n: "prethd_new th mut cond al s = Some (p, s1)" and p: "p \<noteq> NULL"
    by blast
  from new_releasable [OF n p] obtain pl where
    r: "releasable s1 p pl" and l: "len pl = th" "mlen pl = mut" "clen pl = cond"
    and bt: "block_size s1 (threads pl) = Some (unat (th * sizeof_thread))"
    and m1: "muts_granted al \<and> mut \<noteq> 0 \<longrightarrow> muts pl \<noteq> NULL"
    and c1: "conds_granted al \<and> cond \<noteq> 0 \<longrightarrow> conds pl \<noteq> NULL"
    by blast
  from r have lp: "load_pool s1 p = Some pl" by (simp add: releasable_def)
  have at: "arr_ok s1 (threads pl) (len pl) sizeof_thread"
    using bt ft th l(1) unat_pos [OF th] by (simp add: arr_ok_def elem_ok_def fits_unat)
  have am: "arr_ok s1 (muts pl) (mlen pl) sizeof_mutex"
    using r m1 g(1) l(2) by (auto simp: arr_ok_def releasable_def)
  have ac: "arr_ok s1 (conds pl) (clen pl) sizeof_cond"
    using r c1 g(2) l(3) by (auto simp: arr_ok_def releasable_def)
  have "pool_ok s1 p" using p lp at am ac by (simp add: pool_ok_def)
  moreover have "prethd_size p s1 = Some th" "prethd_mutex_size p s1 = Some mut"
      "prethd_cond_size p s1 = Some cond"
    using p lp l by (simp_all add: prethd_size_def prethd_mutex_size_def prethd_cond_size_def)
  ultimately show "\<exists>p s'. prethd_new th mut cond al s = Some (p, s') \<and> p \<noteq> NULL \<and> pool_ok s' p \<and>
        prethd_size p s' = Some th \<and>
        prethd_mutex_size p s' = Some mut \<and>
        prethd_cond_size p s' = Some cond"
    using n p by blast
qed

proposition new_valid_witness:
  "prethd_new 0 5 7 all_ok init_state = Some (NULL, init_state) \<and>
   allocs_succeed 2 1 1 all_ok \<and>
   prethd_new 2 1 1 all_ok init_state = Some (1, demo_pool) \<and>
   pool_ok demo_pool 1 \<and>
   prethd_size 1 demo_pool = Some 2 \<and>
   prethd_mutex_size 1 demo_pool = Some 1 \<and>
   prethd_cond_size 1 demo_pool = Some 1"
proof -
  have a: "allocs_succeed 2 1 1 all_ok"
    by (simp add: allocs_succeed_def all_ok_def fits_def sizeof_thread_def sizeof_mutex_def
        sizeof_cond_def)
  have t: "(2::size_t) \<noteq> 0" by simp
  from new_valid [of 5 7 all_ok init_state 2] 
  have z: "prethd_new 0 5 7 all_ok init_state = Some (NULL, init_state)" by simp
  from new_valid [of 1 1 all_ok init_state 2] a t demo_pool_new z
  show ?thesis by auto
qed

text \<open>
  C1. The claim: when the allocation of the mutex array or of the condition variable
  array fails, \<^verbatim>\<open>prethd_new\<close> releases what it allocated and returns \<^verbatim>\<open>NULL\<close>, so that
  it never returns a pool with an array missing. The code tests only the thread array:
  with the mutex array refused, \<^verbatim>\<open>prethd_new(1, 1, 0)\<close> returns a pool that reports one
  mutex and whose \<open>muts\<close> is \<^verbatim>\<open>NULL\<close>; locking mutex 0 of it is an access through a
  null pointer.
\<close>

theorem new_returns_partial_pool:
  "prethd_new 1 1 0 no_muts init_state = Some (1, partial_pool) \<and>
   prethd_mutex_size 1 partial_pool = Some 1 \<and>
   map_option muts (load_pool partial_pool 1) = Some NULL \<and>
   \<not> pool_ok partial_pool 1 \<and>
   prethd_lock 1 0 0 partial_pool = None"
proof -
  have "prethd_new 1 1 0 no_muts init_state = Some (1, partial_pool)"
    by (simp add: constr_defs partial_pool_def no_muts_def) (simp add: numeral_eq_Suc)
  moreover have "prethd_mutex_size 1 partial_pool = Some 1"
    by (simp add: prethd_mutex_size_def partial_pool_def NULL_def load_pool_def block_size_def)
  moreover have "map_option muts (load_pool partial_pool 1) = Some NULL"
    by (simp add: partial_pool_def NULL_def load_pool_def block_size_def)
  moreover have "\<not> pool_ok partial_pool 1"
    by (simp add: pool_ok_def arr_ok_def elem_ok_def partial_pool_def NULL_def load_pool_def
        block_size_def)
  moreover have "prethd_lock 1 0 0 partial_pool = None"
    by (simp add: prethd_lock_def prim_eq elem_ok_def partial_pool_def NULL_def load_pool_def
        block_size_def)
  ultimately show ?thesis by simp
qed

section \<open>Bounds checks\<close>

text \<open>
  C2. On a live pool object with \<open>mlen = M\<close> and \<open>clen = C\<close>: \<^verbatim>\<open>prethd_lock\<close> and
  \<^verbatim>\<open>prethd_unlock\<close> return false for every index \<open>i \<ge> M\<close> without any call; they return
  true for \<open>i < M\<close> when the pthread call succeeds, that is, it runs on a mutex that exists
  and returns 0. \<^verbatim>\<open>prethd_wait\<close> returns false when \<open>c \<ge> C\<close> or \<open>m \<ge> M\<close>;
  \<^verbatim>\<open>prethd_signal\<close> and \<^verbatim>\<open>prethd_broad\<close> return false for \<open>c \<ge> C\<close> and true for
  \<open>c < C\<close> when the pthread call succeeds.
\<close>

theorem bounds_checked:
  assumes "th \<noteq> NULL" and "load_pool s th = Some p"
  shows
    "(mlen p \<le> i \<longrightarrow>
        prethd_lock th i r s = Some (False, s) \<and> prethd_unlock th i r s = Some (False, s)) \<and>
     (i < mlen p \<and> elem_ok s (muts p) (unat i) sizeof_mutex \<longrightarrow>
        prethd_lock th i 0 s = Some (True, emits [Lock (muts p) (unat i) 0] s) \<and>
        prethd_unlock th i 0 s = Some (True, emits [Unlock (muts p) (unat i) 0] s)) \<and>
     (clen p \<le> c \<or> mlen p \<le> m \<longrightarrow> prethd_wait th c m r s = Some (False, s)) \<and>
     (clen p \<le> c \<longrightarrow>
        prethd_signal th c r s = Some (False, s) \<and> prethd_broad th c r s = Some (False, s)) \<and>
     (c < clen p \<and> elem_ok s (conds p) (unat c) sizeof_cond \<longrightarrow>
        prethd_signal th c 0 s = Some (True, emits [Signal (conds p) (unat c) 0] s) \<and>
        prethd_broad th c 0 s = Some (True, emits [Broadcast (conds p) (unat c) 0] s))"
  using assms
  by (simp add: prethd_lock_def prethd_unlock_def prethd_wait_def prethd_signal_def
      prethd_broad_def prim_eq not_le [symmetric])

theorem bounds_checked_witness:
  "load_pool demo_pool 1 = Some demo_obj \<and>
   prethd_lock 1 0 0 demo_pool = Some (True, emits [Lock 2 0 0] demo_pool) \<and>
   prethd_unlock 1 0 0 demo_pool = Some (True, emits [Unlock 2 0 0] demo_pool) \<and>
   prethd_signal 1 0 0 demo_pool = Some (True, emits [Signal 3 0 0] demo_pool) \<and>
   prethd_broad 1 0 0 demo_pool = Some (True, emits [Broadcast 3 0 0] demo_pool) \<and>
   prethd_lock 1 1 0 demo_pool = Some (False, demo_pool) \<and>
   prethd_unlock 1 1 0 demo_pool = Some (False, demo_pool) \<and>
   prethd_wait 1 0 1 0 demo_pool = Some (False, demo_pool) \<and>
   prethd_wait 1 1 0 0 demo_pool = Some (False, demo_pool) \<and>
   prethd_signal 1 1 0 demo_pool = Some (False, demo_pool) \<and>
   prethd_broad 1 1 0 demo_pool = Some (False, demo_pool)"
proof -
  have n: "(1::addr) \<noteq> NULL" by (simp add: NULL_def)
  have e: "elem_ok demo_pool (muts demo_obj) (unat (0::size_t)) sizeof_mutex \<and>
      elem_ok demo_pool (conds demo_obj) (unat (0::size_t)) sizeof_cond"
    by (simp add: demo_defs)
  from bounds_checked [OF n demo_pool_load, of 0 0 0 0]
       bounds_checked [OF n demo_pool_load, of 1 0 1 0]
       bounds_checked [OF n demo_pool_load, of 1 0 0 1] e demo_pool_load
  show ?thesis
    by (simp add: demo_obj_def)
qed

section \<open>Starting the threads\<close>

text \<open>
  C4. On a pool whose thread array holds its \<open>len\<close> slots, \<^verbatim>\<open>prethd_all\<close> calls
  \<^verbatim>\<open>pthread_create\<close> on the slots in index order from 0, stops after the first call that
  fails, leaves the later slots untouched and returns the number \<open>k\<close> of calls that
  succeeded before it: \<open>k \<le> len\<close>, and \<open>k = len\<close> when every call succeeds.
\<close>

theorem start_all_counts:
  assumes "th \<noteq> NULL" and "load_pool s th = Some p"
    and "arr_ok s (threads p) (len p) sizeof_thread"
  shows "\<exists>k s'. prethd_all th rc s = Some (k, s') \<and>
      unat k = started_run rc 0 (unat (len p)) \<and>
      list_all (\<lambda>i. rc i = 0) [0..<unat k] \<and>
      (k < len p \<longrightarrow> rc (unat k) \<noteq> 0) \<and>
      k \<le> len p \<and>
      (list_all (\<lambda>i. rc i = 0) [0..<unat (len p)] \<longrightarrow> k = len p) \<and>
      trace s' = trace s @
        map (\<lambda>i. Create (threads p) i (rc i)) [0..<min (Suc (unat k)) (unat (len p))] \<and>
      started s' = started s \<union> (\<lambda>i. (threads p, i)) ` {0..<unat k} \<and>
      heap s' = heap s \<and> pools s' = pools s"
proof -
  let ?n = "unat (len p)"
  let ?k = "started_run rc 0 ?n"
  have kn: "?k \<le> ?n" using started_run_le [of 0 ?n rc] by simp
  then have uk: "unat (of_nat ?k :: size_t) = ?k"
    by (metis le_unat_uoi)
  have le: "(of_nat ?k :: size_t) \<le> len p"
    using kn uk by (simp add: word_le_nat_alt)
  have zeros: "list_all (\<lambda>i. rc i = 0) [0..<?k]"
    by (simp add: list_all_iff started_run_zero)
  have stop: "(of_nat ?k :: size_t) < len p \<longrightarrow> rc ?k \<noteq> 0"
    using uk by (auto simp: word_less_nat_alt dest: started_run_stop)
  have full: "list_all (\<lambda>i. rc i = 0) [0..<?n] \<longrightarrow> (of_nat ?k :: size_t) = len p"
    by (auto dest: started_run_all)
  show ?thesis
    unfolding prethd_all_eq [OF assms]
    using uk le zeros stop full by simp
qed

theorem start_all_counts_witness:
  "load_pool demo_pool 1 = Some demo_obj \<and>
   arr_ok demo_pool (threads demo_obj) (len demo_obj) sizeof_thread \<and>
   (\<exists>s'. prethd_all 1 second_eagain demo_pool = Some (1, s') \<and>
      trace s' = trace demo_pool @ [Create 4 0 0, Create 4 1 11] \<and>
      started s' = {(4, 0)})"
proof -
  have h: "(1::addr) \<noteq> NULL" "load_pool demo_pool 1 = Some demo_obj"
      "arr_ok demo_pool (threads demo_obj) (len demo_obj) sizeof_thread"
    by (simp_all add: demo_defs)
  have k: "started_run second_eagain 0 (unat (len demo_obj)) = 1"
    by (simp add: started_run_def demo_obj_def upt_0_2 second_eagain_def)
  from start_all_counts [OF h, of second_eagain]
  obtain k s' where r: "prethd_all 1 second_eagain demo_pool = Some (k, s')"
    and uk: "unat k = started_run second_eagain 0 (unat (len demo_obj))"
    and tr: "trace s' = trace demo_pool @
        map (\<lambda>i. Create (threads demo_obj) i (second_eagain i))
          [0..<min (Suc (unat k)) (unat (len demo_obj))]"
    and st: "started s' = started demo_pool \<union> (\<lambda>i. (threads demo_obj, i)) ` {0..<unat k}"
    by blast
  from uk k have "unat k = unat (1::size_t)" by simp
  then have k1: "k = 1" by (simp only: word_unat_eq_iff)
  show ?thesis
    using h r tr st unfolding k1
    by (auto simp: demo_obj_def demo_pool_def upt_0_2 second_eagain_def)
qed

section \<open>Joining the threads\<close>

text \<open>
  C5. The claim: \<^verbatim>\<open>prethd_join\<close> returns false when the pool is \<^verbatim>\<open>NULL\<close> or when any
  \<^verbatim>\<open>pthread_join\<close> fails, returns true only when every one succeeds, and joins every
  slot without short-circuit. The code adds the results up in the \<^verbatim>\<open>int\<close> \<open>chk\<close> and
  returns \<^verbatim>\<open>chk == 0\<close>, so failures whose results add up to 0 are reported as success:
  on the pool of \<open>2^32\<close> threads every \<^verbatim>\<open>pthread_join\<close> returns \<^verbatim>\<open>ESRCH\<close>, the sum
  \<open>3 * 2^32\<close> is 0 in 32 bits, and \<^verbatim>\<open>prethd_join\<close> returns true; on the pool of two
  threads so do the \<^verbatim>\<open>int\<close> results 3 and \<open>-3\<close>.
\<close>

theorem join_true_after_failures:
  "prethd_new 4294967296 0 0 all_ok init_state = Some (1, huge_pool) \<and>
   pool_ok huge_pool 1 \<and>
   all_esrch 0 \<noteq> 0 \<and>
   prethd_join 1 all_esrch huge_pool = Some (True, huge_joined) \<and>
   plus_minus 0 \<noteq> 0 \<and>
   prethd_join 1 plus_minus demo_pool =
     Some (True, emits [Join 4 0 3, Join 4 1 (- 3)] demo_pool)"
proof -
  have e: "prethd_new 4294967296 0 0 all_ok init_state = Some (1, huge_pool)"
    by (simp add: constr_defs huge_pool_def) (simp add: numeral_eq_Suc)
  have l: "load_pool huge_pool 1 = Some huge_obj"
    by (simp add: huge_pool_def huge_obj_def load_pool_def block_size_def NULL_def)
  have ar: "arr_ok huge_pool (threads huge_obj) (len huge_obj) sizeof_thread"
    by (simp add: arr_ok_def elem_ok_def block_size_def huge_pool_def huge_obj_def NULL_def
        sizeof_thread_def)
  have ok: "pool_ok huge_pool 1"
    using ar l by (simp add: pool_ok_def arr_ok_def NULL_def huge_obj_def)
  have n: "(1::addr) \<noteq> NULL" by (simp add: NULL_def)
  have s: "(\<Sum>j = 0..<unat (len huge_obj). all_esrch j) = 0"
    by (simp add: all_esrch_def huge_obj_def)
  have j: "prethd_join 1 all_esrch huge_pool = Some (True, huge_joined)"
    unfolding prethd_join_eq [OF n l ar] s
    by (simp add: huge_joined_def huge_obj_def all_esrch_def)
  have h: "(1::addr) \<noteq> NULL" "load_pool demo_pool 1 = Some demo_obj"
      "arr_ok demo_pool (threads demo_obj) (len demo_obj) sizeof_thread"
    by (simp_all add: demo_defs)
  have k: "prethd_join 1 plus_minus demo_pool =
      Some (True, emits [Join 4 0 3, Join 4 1 (- 3)] demo_pool)"
    unfolding prethd_join_eq [OF h]
    by (simp add: demo_obj_def upt_0_2 sum_0_2 plus_minus_def)
  from e ok j k show ?thesis by (simp add: all_esrch_def plus_minus_def)
qed

text \<open>
  What holds of the claim: \<^verbatim>\<open>prethd_join\<close> returns false on \<^verbatim>\<open>NULL\<close>. On a pool whose
  thread array holds its \<open>len\<close> slots it calls \<^verbatim>\<open>pthread_join\<close> on every slot in index
  order, whatever the earlier calls returned, and returns whether the \<^verbatim>\<open>int\<close> sum of the
  results is 0; when the results are error numbers whose sum is an \<^verbatim>\<open>int\<close>
  (\<open>codes_fit\<close>), that is true exactly when every \<^verbatim>\<open>pthread_join\<close> returned 0.
\<close>

proposition join_accumulates:
  "prethd_join NULL rc s = Some (False, s) \<and>
   (th \<noteq> NULL \<and> load_pool s th = Some p \<and> arr_ok s (threads p) (len p) sizeof_thread \<longrightarrow>
      prethd_join th rc s =
        Some ((\<Sum>i = 0..<unat (len p). rc i) = 0,
              emits (map (\<lambda>i. Join (threads p) i (rc i)) [0..<unat (len p)]) s) \<and>
      (codes_fit rc (unat (len p)) \<longrightarrow>
         ((\<Sum>i = 0..<unat (len p). rc i) = 0) =
         list_all (\<lambda>i. rc i = 0) [0..<unat (len p)]))"
proof (intro conjI impI)
  show "prethd_join NULL rc s = Some (False, s)"
    by (simp add: prethd_join_def)
next
  assume "th \<noteq> NULL \<and> load_pool s th = Some p \<and>
    arr_ok s (threads p) (len p) sizeof_thread"
  then show "prethd_join th rc s =
        Some ((\<Sum>i = 0..<unat (len p). rc i) = 0,
              emits (map (\<lambda>i. Join (threads p) i (rc i)) [0..<unat (len p)]) s)"
    by (simp add: prethd_join_eq)
next
  assume "codes_fit rc (unat (len p))"
  then show "((\<Sum>i = 0..<unat (len p). rc i) = 0) =
         list_all (\<lambda>i. rc i = 0) [0..<unat (len p)]"
    by (rule codes_fit_zero)
qed

proposition join_accumulates_witness:
  "load_pool demo_pool 1 = Some demo_obj \<and>
   arr_ok demo_pool (threads demo_obj) (len demo_obj) sizeof_thread \<and>
   codes_fit first_esrch 2 \<and>
   prethd_join 1 first_esrch demo_pool =
     Some (False, emits [Join 4 0 3, Join 4 1 0] demo_pool)"
proof -
  have h: "(1::addr) \<noteq> NULL \<and> load_pool demo_pool 1 = Some demo_obj \<and>
      arr_ok demo_pool (threads demo_obj) (len demo_obj) sizeof_thread"
    by (simp add: demo_defs)
  have c: "codes_fit first_esrch 2"
    by (simp add: codes_fit_def upt_0_2 first_esrch_def)
  from join_accumulates [of first_esrch demo_pool 1 demo_obj] h c
  show ?thesis
    by (auto simp: demo_obj_def upt_0_2 sum_0_2 first_esrch_def)
qed

text \<open>
  C8. The claim: after a \<^verbatim>\<open>prethd_all\<close> that started only \<open>k < len\<close> threads, a join
  works only on the \<open>k\<close> started slots. It fails on \<open>demo_pool\<close>: the second of two
  starts fails (\<open>k = 1\<close>), and \<^verbatim>\<open>prethd_join\<close> still calls \<^verbatim>\<open>pthread_join\<close> on slot 1,
  which holds no handle.
\<close>

theorem join_reaches_unstarted_slot:
  "prethd_all 1 second_eagain demo_pool = Some (1, demo_partial) \<and>
   prethd_size 1 demo_partial = Some 2 \<and>
   prethd_join 1 second_esrch demo_partial =
     Some (False, emits [Join 4 0 0, Join 4 1 3] demo_partial) \<and>
   \<not> joins_started_only demo_partial (emits [Join 4 0 0, Join 4 1 3] demo_partial)"
proof -
  have h: "(1::addr) \<noteq> NULL" "load_pool demo_pool 1 = Some demo_obj"
      "arr_ok demo_pool (threads demo_obj) (len demo_obj) sizeof_thread"
    by (simp_all add: demo_defs)
  have a: "prethd_all 1 second_eagain demo_pool = Some (1, demo_partial)"
    unfolding prethd_all_eq [OF h]
    by (simp add: started_run_def demo_obj_def demo_partial_def demo_pool_def upt_0_2
        second_eagain_def)
  have j: "prethd_join 1 second_esrch demo_partial =
      Some (False, emits [Join 4 0 0, Join 4 1 3] demo_partial)"
    by (subst prethd_join_eq [where p = demo_obj])
       (simp_all add: demo_defs upt_0_2 sum_0_2 second_esrch_def)
  have sz: "prethd_size 1 demo_partial = Some 2"
    by (simp add: prethd_size_def demo_defs)
  have n: "\<not> joins_started_only demo_partial (emits [Join 4 0 0, Join 4 1 3] demo_partial)"
    by (simp add: joins_started_only_def demo_partial_def emits_def)
  from a sz j n show ?thesis by simp
qed

text \<open>
  C8, as the code has it. \<^verbatim>\<open>prethd_all\<close> leaves the pool object as it was, so nothing in
  it tells which slots were started, and the \<^verbatim>\<open>prethd_join\<close> that follows calls
  \<^verbatim>\<open>pthread_join\<close> on every one of the \<open>len\<close> slots in index order, the slots from \<open>k\<close> on
  included, which \<^verbatim>\<open>prethd_all\<close> did not start.
\<close>

theorem join_covers_unstarted:
  assumes "th \<noteq> NULL" and "load_pool s th = Some p"
    and "arr_ok s (threads p) (len p) sizeof_thread"
    and "prethd_all th rc s = Some (k, s1)"
  shows "load_pool s1 th = Some p \<and>
     (\<exists>b. prethd_join th rc' s1 =
        Some (b, emits (map (\<lambda>i. Join (threads p) i (rc' i)) [0..<unat (len p)]) s1)) \<and>
     (\<forall>i. unat k \<le> i \<and> (threads p, i) \<notin> started s \<longrightarrow> (threads p, i) \<notin> started s1)"
proof -
  let ?n = "unat (len p)"
  let ?k = "started_run rc 0 ?n"
  have kn: "?k \<le> ?n" using started_run_le [of 0 ?n rc] by simp
  then have uk: "unat (of_nat ?k :: size_t) = ?k"
    by (metis le_unat_uoi)
  from assms(4) have k: "k = of_nat ?k"
    and s1: "s1 = (emits (map (\<lambda>j. Create (threads p) j (rc j)) [0..<min (Suc ?k) ?n]) s)
        \<lparr>started := started s \<union> (\<lambda>j. (threads p, j)) ` {0..<?k}\<rparr>"
    unfolding prethd_all_eq [OF assms(1-3)] by simp_all
  have lp: "load_pool s1 th = Some p"
    using assms(2) unfolding s1 by simp
  have arr: "arr_ok s1 (threads p) (len p) sizeof_thread"
    using assms(3) unfolding s1 by (simp add: arr_ok_def)
  have "prethd_join th rc' s1 =
      Some ((\<Sum>j = 0..<?n. rc' j) = 0, emits (map (\<lambda>j. Join (threads p) j (rc' j)) [0..<?n]) s1)"
    by (rule prethd_join_eq [OF assms(1) lp arr])
  moreover have "\<forall>i. unat k \<le> i \<and> (threads p, i) \<notin> started s \<longrightarrow> (threads p, i) \<notin> started s1"
    unfolding s1 k uk by auto
  ultimately show ?thesis using lp by blast
qed

theorem join_covers_unstarted_witness:
  "load_pool demo_pool 1 = Some demo_obj \<and>
   arr_ok demo_pool (threads demo_obj) (len demo_obj) sizeof_thread \<and>
   prethd_all 1 second_eagain demo_pool = Some (1, demo_partial) \<and>
   load_pool demo_partial 1 = Some demo_obj \<and>
   prethd_join 1 (\<lambda>i. 0) demo_partial = Some (True, emits [Join 4 0 0, Join 4 1 0] demo_partial) \<and>
   (4, 1) \<notin> started demo_partial"
proof -
  have h: "(1::addr) \<noteq> NULL" "load_pool demo_pool 1 = Some demo_obj"
      "arr_ok demo_pool (threads demo_obj) (len demo_obj) sizeof_thread"
    by (simp_all add: demo_defs)
  have a: "prethd_all 1 second_eagain demo_pool = Some (1, demo_partial)"
    unfolding prethd_all_eq [OF h]
    by (simp add: started_run_def demo_obj_def demo_partial_def demo_pool_def upt_0_2
        second_eagain_def)
  have j: "prethd_join 1 (\<lambda>i. 0) demo_partial =
      Some (True, emits [Join 4 0 0, Join 4 1 0] demo_partial)"
    by (subst prethd_join_eq [where p = demo_obj]) (simp_all add: demo_defs upt_0_2 sum_0_2)
  from join_covers_unstarted [OF h a, of "\<lambda>i. 0"] h a j show ?thesis
    by (simp add: demo_obj_def demo_partial_def emits_def)
qed

section \<open>The counts\<close>

text \<open>
  C9. No sequence of \<^verbatim>\<open>prethd_all\<close>, \<^verbatim>\<open>prethd_join\<close>, \<^verbatim>\<open>prethd_lock\<close>,
  \<^verbatim>\<open>prethd_unlock\<close>, \<^verbatim>\<open>prethd_wait\<close>, \<^verbatim>\<open>prethd_signal\<close> and \<^verbatim>\<open>prethd_broad\<close> on a
  pool changes what \<^verbatim>\<open>prethd_size\<close>, \<^verbatim>\<open>prethd_mutex_size\<close> and \<^verbatim>\<open>prethd_cond_size\<close>
  return for it; and on a pool whose three arrays hold their elements every such
  sequence runs to its end and leaves such a pool.
\<close>

theorem counts_immutable:
  "(\<forall>s'. run_ops th xs s = Some s' \<longrightarrow>
      prethd_size th s' = prethd_size th s \<and>
      prethd_mutex_size th s' = prethd_mutex_size th s \<and>
      prethd_cond_size th s' = prethd_cond_size th s) \<and>
   (pool_ok s th \<longrightarrow> (\<exists>s'. run_ops th xs s = Some s' \<and> pool_ok s' th))"
proof (intro conjI allI impI)
  fix s' assume r: "run_ops th xs s = Some s'"
  from run_ops_frame [OF r] sizes_frame [of s' s th]
  show "prethd_size th s' = prethd_size th s"
    and "prethd_mutex_size th s' = prethd_mutex_size th s"
    and "prethd_cond_size th s' = prethd_cond_size th s"
    by simp_all
next
  assume ok: "pool_ok s th"
  from run_ops_total [OF ok] obtain s' where r: "run_ops th xs s = Some s'" by blast
  from run_ops_frame [OF r] ok have "pool_ok s' th"
    using pool_ok_frame [of s' s th] by simp
  with r show "\<exists>s'. run_ops th xs s = Some s' \<and> pool_ok s' th" by blast
qed

theorem counts_immutable_witness:
  "pool_ok demo_pool 1 \<and>
   (\<exists>s'. run_ops 1 demo_ops demo_pool = Some s' \<and>
      prethd_size 1 s' = Some 2 \<and>
      prethd_mutex_size 1 s' = Some 1 \<and>
      prethd_cond_size 1 s' = Some 1)"
proof -
  have sz: "prethd_size 1 demo_pool = Some 2" "prethd_mutex_size 1 demo_pool = Some 1"
      "prethd_cond_size 1 demo_pool = Some 1"
    by (simp_all add: prethd_size_def prethd_mutex_size_def prethd_cond_size_def demo_defs)
  from counts_immutable [of 1 demo_ops demo_pool] demo_pool_ok sz
  show ?thesis by auto
qed

section \<open>Release\<close>

text \<open>
  C10. On every pool that \<^verbatim>\<open>prethd_new\<close> returned, at once or after any run of
  operations on it, \<^verbatim>\<open>prethd_free\<close> runs to its end without a fault. When a count is 0
  the array is \<^verbatim>\<open>NULL\<close> and its destroy helper does nothing; an array that is
  \<^verbatim>\<open>NULL\<close> is neither destroyed nor freed; the thread array and the pool object are
  freed, in this order, and are no longer live afterwards.
\<close>

theorem free_after_new:
  assumes "prethd_new th mut cond al s = Some (p, s1)" and "p \<noteq> NULL"
    and "run_ops p xs s1 = Some s1'"
  shows "\<exists>pl s2. load_pool s1' p = Some pl \<and>
     (mut = 0 \<longrightarrow> muts pl = NULL \<and> des_muts (muts pl) mut s1' = Some s1') \<and>
     (cond = 0 \<longrightarrow> conds pl = NULL \<and> des_conds (conds pl) cond s1' = Some s1') \<and>
     prethd_free p s1' = Some s2 \<and>
     trace s2 = trace s1' @
       (if muts pl = NULL then []
        else map (MutexDestroy (muts pl)) [0..<unat mut] @ [Free (muts pl)]) @
       (if conds pl = NULL then []
        else map (CondDestroy (conds pl)) [0..<unat cond] @ [Free (conds pl)]) @
       [Free (threads pl), Free p] \<and>
     block_size s2 p = None \<and> block_size s2 (threads pl) = None"
proof -
  from new_releasable [OF assms(1,2)] obtain pl where
    r1: "releasable s1 p pl" and l: "mlen pl = mut" "clen pl = cond"
    and z: "mut = 0 \<longrightarrow> muts pl = NULL" "cond = 0 \<longrightarrow> conds pl = NULL"
    by blast
  from run_ops_frame [OF assms(3)] r1 have r: "releasable s1' p pl"
    using releasable_frame [of s1' s1 p pl] by simp
  from prethd_free_ok [OF r] obtain s2 where
    f: "prethd_free p s1' = Some s2" and
    t: "trace s2 = trace s1' @
       (if muts pl = NULL \<or> mlen pl = 0 then []
        else map (MutexDestroy (muts pl)) [0..<unat (mlen pl)] @ [Free (muts pl)]) @
       (if conds pl = NULL \<or> clen pl = 0 then []
        else map (CondDestroy (conds pl)) [0..<unat (clen pl)] @ [Free (conds pl)]) @
       [Free (threads pl), Free p]" and
    b: "block_size s2 p = None" "block_size s2 (threads pl) = None"
    by blast
  from r have lp: "load_pool s1' p = Some pl" by (simp add: releasable_def)
  have dm: "mut = 0 \<longrightarrow> des_muts (muts pl) mut s1' = Some s1'"
    by (simp add: des_muts_def)
  have dc: "cond = 0 \<longrightarrow> des_conds (conds pl) cond s1' = Some s1'"
    by (simp add: des_conds_def)
  have "trace s2 = trace s1' @
       (if muts pl = NULL then []
        else map (MutexDestroy (muts pl)) [0..<unat mut] @ [Free (muts pl)]) @
       (if conds pl = NULL then []
        else map (CondDestroy (conds pl)) [0..<unat cond] @ [Free (conds pl)]) @
       [Free (threads pl), Free p]"
    using t l z by auto
  with lp f b z dm dc show ?thesis by blast
qed

theorem free_after_new_witness:
  "prethd_new 1 0 0 all_ok init_state = Some (1, bare_pool) \<and>
   des_muts NULL 0 bare_pool = Some bare_pool \<and>
   des_conds NULL 0 bare_pool = Some bare_pool \<and>
   (\<exists>s1'. run_ops 1 demo_ops bare_pool = Some s1' \<and>
      (\<exists>s2. prethd_free 1 s1' = Some s2 \<and>
         trace s2 = trace s1' @ [Free 2, Free 1] \<and>
         block_size s2 1 = None \<and> block_size s2 2 = None))"
proof -
  have n: "(1::addr) \<noteq> NULL" by (simp add: NULL_def)
  have "pool_ok bare_pool 1"
    by (simp add: pool_ok_def arr_ok_def elem_ok_def bare_pool_def load_pool_def
        block_size_def NULL_def sizeof_thread_def)
  from run_ops_total [OF this] obtain s1' where r: "run_ops 1 demo_ops bare_pool = Some s1'"
    by blast
  have l: "load_pool bare_pool 1 =
      Some \<lparr>muts = 0, conds = 0, threads = 2, len = 1, mlen = 0, clen = 0\<rparr>"
    by (simp add: bare_pool_def load_pool_def block_size_def NULL_def)
  from run_ops_frame [OF r] have "load_pool s1' 1 = load_pool bare_pool 1"
    by (intro load_pool_frame) (simp_all add: block_size_def)
  with l have l': "load_pool s1' 1 =
      Some \<lparr>muts = 0, conds = 0, threads = 2, len = 1, mlen = 0, clen = 0\<rparr>"
    by simp
  from free_after_new [OF bare_pool_new n r] l' obtain s2 where
    "prethd_free 1 s1' = Some s2" "trace s2 = trace s1' @ [Free 2, Free 1]"
    "block_size s2 1 = None" "block_size s2 2 = None"
    by (auto simp: NULL_def)
  with r have "\<exists>s1'. run_ops 1 demo_ops bare_pool = Some s1' \<and>
      (\<exists>s2. prethd_free 1 s1' = Some s2 \<and>
         trace s2 = trace s1' @ [Free 2, Free 1] \<and>
         block_size s2 1 = None \<and> block_size s2 2 = None)"
    by blast
  moreover have "des_muts NULL 0 bare_pool = Some bare_pool"
    "des_conds NULL 0 bare_pool = Some bare_pool"
    by (simp_all add: des_muts_def des_conds_def)
  ultimately show ?thesis using bare_pool_new by simp
qed

text \<open>
  C6. \<^verbatim>\<open>prethd_join_free\<close> is \<^verbatim>\<open>prethd_join\<close> followed, exactly when the join returned
  true, by what \<^verbatim>\<open>prethd_free\<close> does on the same pool in the state the join left; when
  the join returned false, the state is the one the join left, in which the heap and the
  pool objects are those before the call: nothing was released.
\<close>

theorem join_free_after_join:
  "prethd_join_free th rc s =
     (case prethd_join th rc s of
        None \<Rightarrow> None
      | Some (joined, s0) \<Rightarrow> if joined then prethd_free th s0 else Some s0) \<and>
   (\<forall>s0. prethd_join th rc s = Some (False, s0) \<longrightarrow>
      prethd_join_free th rc s = Some s0 \<and> heap s0 = heap s \<and> pools s0 = pools s)"
proof (intro conjI allI impI)
  show "prethd_join_free th rc s =
     (case prethd_join th rc s of
        None \<Rightarrow> None
      | Some (joined, s0) \<Rightarrow> if joined then prethd_free th s0 else Some s0)"
    by (auto simp: prethd_join_free_def prethd_free_def split: option.splits
        dest: prethd_join_not_null)
next
  fix s0 assume j: "prethd_join th rc s = Some (False, s0)"
  then show "prethd_join_free th rc s = Some s0"
    by (simp add: prethd_join_free_def)
  from prethd_join_frame [OF j] show "heap s0 = heap s" by auto
  from prethd_join_frame [OF j] show "pools s0 = pools s" by auto
qed

theorem join_free_after_join_witness:
  "prethd_join 1 second_esrch demo_pool =
     Some (False, emits [Join 4 0 0, Join 4 1 3] demo_pool) \<and>
   prethd_join_free 1 second_esrch demo_pool = Some (emits [Join 4 0 0, Join 4 1 3] demo_pool) \<and>
   heap (emits [Join 4 0 0, Join 4 1 3] demo_pool) = heap demo_pool"
proof -
  have j: "prethd_join 1 second_esrch demo_pool =
      Some (False, emits [Join 4 0 0, Join 4 1 3] demo_pool)"
    by (subst prethd_join_eq [where p = demo_obj])
       (simp_all add: demo_defs upt_0_2 sum_0_2 second_esrch_def)
  from join_free_after_join [of 1 second_esrch demo_pool] j show ?thesis
    by simp
qed

section \<open>Operations on an absent pool\<close>

text \<open>
  C7. Every operation of the interface, called with \<^verbatim>\<open>NULL\<close> for the pool, returns its
  sentinel (0 for the three sizes and for \<^verbatim>\<open>prethd_all\<close>, false for the boolean
  operations, nothing for the two free operations) and leaves the state as it was: no
  call reaches the allocator or the pthread library, and no memory is touched.
\<close>

theorem null_pool_sentinels:
  "prethd_size NULL s = Some 0 \<and>
   prethd_mutex_size NULL s = Some 0 \<and>
   prethd_cond_size NULL s = Some 0 \<and>
   prethd_all NULL rc s = Some (0, s) \<and>
   prethd_join NULL rc s = Some (False, s) \<and>
   prethd_lock NULL i r s = Some (False, s) \<and>
   prethd_unlock NULL i r s = Some (False, s) \<and>
   prethd_wait NULL c m r s = Some (False, s) \<and>
   prethd_signal NULL i r s = Some (False, s) \<and>
   prethd_broad NULL i r s = Some (False, s) \<and>
   prethd_free NULL s = Some s \<and>
   prethd_join_free NULL rc s = Some s"
  by (simp add: prethd_size_def prethd_mutex_size_def prethd_cond_size_def prethd_all_def
      prethd_join_def prethd_lock_def prethd_unlock_def prethd_wait_def prethd_signal_def
      prethd_broad_def prethd_free_def prethd_join_free_def)

end
